theory Spec2Isabelle
  imports Main "HOL-Library.Word" "HOL-Library.Multiset"
begin

unbundle bit_operations_syntax

section \<open>Go values used by hashring.go\<close>

text \<open>
  \<^verbatim>\<open>type HashKey uint32\<close>. Go's \<^verbatim>\<open>int\<close> is taken at its 64-bit width (amd64, arm64):
  arithmetic on it wraps around, and \<open>sint\<close> reads its value. A run-time panic (index or
  slice bounds out of range) is the result \<open>None\<close>.
\<close>

type_synonym byte = "8 word"
type_synonym HashKey = "32 word"
type_synonym goint = "64 word"

text \<open>
  A \<^verbatim>\<open>[]byte\<close> value has a length and a capacity. \<open>elems\<close> are the bytes below the
  length, \<open>spare\<close> the bytes of the backing array between length and capacity. For a
  slice expression \<^verbatim>\<open>s[lo:hi]\<close> the Go specification asks \<^verbatim>\<open>0 <= lo <= hi <= len(s)\<close>
  of an array or a string, and adds: "For slices, the upper index bound is the slice
  capacity cap(a) rather than the length." The result has the length \<open>hi - lo\<close> and
  shares the backing array. An index expression \<^verbatim>\<open>s[i]\<close> is bounded by the length.
\<close>

record bytes =
  elems :: "byte list"
  spare :: "byte list"

definition len :: "bytes \<Rightarrow> nat" where
  "len b = length (elems b)"

definition cap :: "bytes \<Rightarrow> nat" where
  "cap b = length (elems b) + length (spare b)"

definition slice_expr :: "bytes \<Rightarrow> nat \<Rightarrow> nat \<Rightarrow> bytes option" where
  "slice_expr b lo hi =
     (if lo \<le> hi \<and> hi \<le> cap b
      then Some \<lparr>elems = take (hi - lo) (drop lo (elems b @ spare b)),
                 spare = drop hi (elems b @ spare b)\<rparr>
      else None)"

definition index_expr :: "bytes \<Rightarrow> nat \<Rightarrow> byte option" where
  "index_expr b i = (if i < len b then Some (elems b ! i) else None)"

text \<open>
  \<^verbatim>\<open>hashProvider\<close> yields a fresh \<^verbatim>\<open>hash.Hash\<close>; \<^verbatim>\<open>hashDigest\<close> writes the string
  into it and takes \<^verbatim>\<open>Sum(nil)\<close>. A provider is therefore modelled by the function
  from the string to the digest slice it ends up with.
\<close>

type_synonym digest = "string \<Rightarrow> bytes"

record HashRing =
  ring :: "HashKey \<rightharpoonup> string"
  hashProvider :: digest
  sortedKeys :: "HashKey list"
  nodes :: "string list"
  weights :: "string \<rightharpoonup> goint"

section \<open>Library functions the source calls\<close>

text \<open>\<^verbatim>\<open>fmt.Sprintf("%d", j)\<close> for the loop counter \<open>j \<ge> 0\<close>: its decimal digits.\<close>

function itoa :: "nat \<Rightarrow> string" where
  "itoa n = (if n < 10 then [char_of (48 + n)]
             else itoa (n div 10) @ [char_of (48 + n mod 10)])"
  by pat_completeness auto
termination
  by (relation "measure id") auto

declare itoa.simps [simp del]

text \<open>
  \<^verbatim>\<open>sort.Search(n, f)\<close> of the standard library: the loop
  \<^verbatim>\<open>i, j := 0, n; for i < j { h := int(uint(i+j) >> 1); if !f(h) { i = h + 1 } else { j = h } }; return i\<close>.
\<close>

function search :: "nat \<Rightarrow> nat \<Rightarrow> (nat \<Rightarrow> bool) \<Rightarrow> nat" where
  "search i j f =
     (if i < j
      then (let h = (i + j) div 2 in if \<not> f h then search (h + 1) j f else search i h f)
      else i)"
  by pat_completeness auto
termination
  by (relation "measure (\<lambda>(i, j, f). j - i)") auto

declare search.simps [simp del]

definition Search :: "nat \<Rightarrow> (nat \<Rightarrow> bool) \<Rightarrow> nat" where
  "Search n f = search 0 n f"

text \<open>
  \<^verbatim>\<open>math.Floor(float64(a) / float64(b))\<close> converted back with \<^verbatim>\<open>int(...)\<close>. The
  quotient of the two signed values is taken exactly and rounded down. This is what the
  float64 computation yields whenever \<open>0 \<le> a < 2^53\<close> and \<open>0 < b < 2^53\<close> (both
  conversions are then exact and the rounded quotient cannot reach the next integer).
  Beyond that range float64 rounding is not represented, and the code can differ: with
  two nodes of weights \<open>2^55\<close> and 1, \<^verbatim>\<open>float64(totalWeight)\<close> rounds \<open>2^55 + 1\<close> to
  \<open>2^55\<close> and the code's factor of the first node is 80, where the exact quotient is 79.
  The general theorems below that depend on the value of the factor are therefore stated
  for positive weights with \<open>40 * |nodes| * totalWeight\<close> below \<open>2^53\<close>, and the example
  rings evaluate it on operands that float64 represents exactly (numbers below \<open>2^53\<close>,
  and the operands 0 and \<open>2^62\<close> of the example with the overflow). For \<open>b = 0\<close> the float64
  quotient is NaN or an infinity, whose conversion to \<^verbatim>\<open>int\<close> is
  implementation-dependent; the value 0 of HOL's \<open>div\<close> stands for it (on amd64 the
  conversion gives the least \<^verbatim>\<open>int\<close>, so that the loop over \<open>j\<close> does not run either).
\<close>

definition floorQuot :: "goint \<Rightarrow> goint \<Rightarrow> int" where
  "floorQuot a b = sint a div sint b"

text \<open>A loop whose body may panic: the state is threaded through the elements in order.\<close>

fun foldM :: "('a \<Rightarrow> 's \<Rightarrow> 's option) \<Rightarrow> 'a list \<Rightarrow> 's \<Rightarrow> 's option" where
  "foldM f [] s = Some s"
| "foldM f (x # xs) s = (case f x s of None \<Rightarrow> None | Some s' \<Rightarrow> foldM f xs s')"

text \<open>A read \<^verbatim>\<open>m[k]\<close> of a Go map: the zero value when the key is absent.\<close>

definition lookupStr :: "('k \<rightharpoonup> string) \<Rightarrow> 'k \<Rightarrow> string" where
  "lookupStr m k = (case m k of None \<Rightarrow> [] | Some v \<Rightarrow> v)"

section \<open>hashring.go\<close>

definition hashDigest :: "HashRing \<Rightarrow> string \<Rightarrow> bytes" where
  "hashDigest h s = hashProvider h s"

text \<open>
  \<^verbatim>\<open>hashVal\<close>: the operands are evaluated left to right, so \<^verbatim>\<open>bKey[3]\<close> is read first.
\<close>

definition hashVal :: "bytes \<Rightarrow> HashKey option" where
  "hashVal bKey =
     (case index_expr bKey 3 of None \<Rightarrow> None | Some b3 \<Rightarrow>
      case index_expr bKey 2 of None \<Rightarrow> None | Some b2 \<Rightarrow>
      case index_expr bKey 1 of None \<Rightarrow> None | Some b1 \<Rightarrow>
      case index_expr bKey 0 of None \<Rightarrow> None | Some b0 \<Rightarrow>
        Some (push_bit 24 (ucast b3) OR push_bit 16 (ucast b2)
              OR push_bit 8 (ucast b1) OR ucast b0))"

text \<open>The body of the loop over \<open>i\<close> in \<^verbatim>\<open>generateCircle\<close> (lines 89 to 91).\<close>

definition chunkStep :: "bytes \<Rightarrow> string \<Rightarrow> nat \<Rightarrow> HashRing \<Rightarrow> HashRing option" where
  "chunkStep bKey node i h =
     (case slice_expr bKey (i * 4) (i * 4 + 4) of None \<Rightarrow> None | Some c \<Rightarrow>
      case hashVal c of None \<Rightarrow> None | Some key \<Rightarrow>
        Some (h\<lparr>ring := (ring h)(key \<mapsto> node), sortedKeys := sortedKeys h @ [key]\<rparr>))"

text \<open>The body of the loop over \<open>j\<close> (lines 85 to 92).\<close>

definition groupStep :: "string \<Rightarrow> nat \<Rightarrow> HashRing \<Rightarrow> HashRing option" where
  "groupStep node j h =
     (let nodeKey = node @ ''-'' @ itoa j;
          bKey = hashDigest h nodeKey
      in foldM (chunkStep bKey node) [0..<3] h)"

text \<open>The weight a node is built with: its entry in \<^verbatim>\<open>weights\<close>, or 1.\<close>

definition weightOf :: "(string \<rightharpoonup> goint) \<Rightarrow> string \<Rightarrow> goint" where
  "weightOf ws node = (case ws node of Some weight \<Rightarrow> weight | None \<Rightarrow> 1)"

text \<open>The first loop of \<^verbatim>\<open>generateCircle\<close> (lines 66 to 73).\<close>

definition totalWeight :: "HashRing \<Rightarrow> goint" where
  "totalWeight h = fold (\<lambda>node t. t + weightOf (weights h) node) (nodes h) 0"

definition factorOf :: "HashRing \<Rightarrow> goint \<Rightarrow> string \<Rightarrow> int" where
  "factorOf h tw node =
     floorQuot (40 * of_nat (length (nodes h)) * weightOf (weights h) node) tw"

text \<open>The body of the second loop over the nodes (lines 76 to 93).\<close>

definition nodeStep :: "goint \<Rightarrow> string \<Rightarrow> HashRing \<Rightarrow> HashRing option" where
  "nodeStep tw node h = foldM (groupStep node) [0..<nat (factorOf h tw node)] h"

text \<open>
  \<^verbatim>\<open>sort.Sort(HashKeyOrder(h.sortedKeys))\<close> leaves a sorted permutation of the keys.
  The keys are plain numbers, so there is only one such list, and \<open>sort\<close> computes it.
\<close>

definition generateCircle :: "HashRing \<Rightarrow> HashRing option" where
  "generateCircle h =
     (case foldM (nodeStep (totalWeight h)) (nodes h) h of None \<Rightarrow> None
      | Some h' \<Rightarrow> Some (h'\<lparr>sortedKeys := sort (sortedKeys h')\<rparr>))"

text \<open>
  The composite literal \<^verbatim>\<open>&HashRing{...}\<close> followed by \<^verbatim>\<open>generateCircle()\<close>, which is
  how \<^verbatim>\<open>New\<close>, \<^verbatim>\<open>NewWithWeights\<close>, \<^verbatim>\<open>AddWeightedNode\<close> and \<^verbatim>\<open>RemoveNode\<close> all end.
\<close>

definition emptyRing :: "digest \<Rightarrow> string list \<Rightarrow> (string \<rightharpoonup> goint) \<Rightarrow> HashRing" where
  "emptyRing hp ns ws =
     \<lparr>ring = Map.empty, hashProvider = hp, sortedKeys = [], nodes = ns, weights = ws\<rparr>"

definition build :: "digest \<Rightarrow> string list \<Rightarrow> (string \<rightharpoonup> goint) \<Rightarrow> HashRing option" where
  "build hp ns ws = generateCircle (emptyRing hp ns ws)"

text \<open>
  \<^verbatim>\<open>defaultHashProvider\<close> is \<^verbatim>\<open>md5.New\<close> of the standard library; its digest function
  is the parameter \<open>md5\<close>. The argument \<^verbatim>\<open>hashProvider\<close> is \<open>hpArg\<close>, with \<open>None\<close>
  for \<^verbatim>\<open>nil\<close>.
\<close>

definition provider :: "digest \<Rightarrow> digest option \<Rightarrow> digest" where
  "provider md5 hpArg = (case hpArg of None \<Rightarrow> md5 | Some hp \<Rightarrow> hp)"

definition New :: "digest \<Rightarrow> string list \<Rightarrow> digest option \<Rightarrow> HashRing option" where
  "New md5 ns hpArg = build (provider md5 hpArg) ns Map.empty"

text \<open>
  \<^verbatim>\<open>for node, _ := range weights\<close> visits every key of the map once, in an order the
  language leaves unspecified and that may change from one run to the next. The order
  of one run is the argument \<open>order\<close>; \<open>rangeOrder\<close> says that it is an order in which
  the map can be visited.
\<close>

definition rangeOrder :: "('k \<rightharpoonup> 'v) \<Rightarrow> 'k list \<Rightarrow> bool" where
  "rangeOrder m ks \<longleftrightarrow> distinct ks \<and> set ks = dom m"

definition NewWithWeights ::
  "digest \<Rightarrow> string list \<Rightarrow> (string \<rightharpoonup> goint) \<Rightarrow> digest option \<Rightarrow> HashRing option" where
  "NewWithWeights md5 order ws hpArg = build (provider md5 hpArg) order ws"

definition GenKey :: "HashRing \<Rightarrow> string \<Rightarrow> HashKey option" where
  "GenKey h key =
     (case slice_expr (hashDigest h key) 0 4 of None \<Rightarrow> None | Some c \<Rightarrow> hashVal c)"

definition GetNodePos :: "HashRing \<Rightarrow> string \<Rightarrow> (nat \<times> bool) option" where
  "GetNodePos h stringKey =
     (if ring h = Map.empty then Some (0, False)
      else case GenKey h stringKey of None \<Rightarrow> None | Some key \<Rightarrow>
        (let ns = sortedKeys h;
             pos = Search (length ns) (\<lambda>i. ns ! i > key)
         in if pos = length ns then Some (0, True) else Some (pos, True)))"

definition GetNode :: "HashRing \<Rightarrow> string \<Rightarrow> (string \<times> bool) option" where
  "GetNode h stringKey =
     (case GetNodePos h stringKey of None \<Rightarrow> None | Some (pos, ok) \<Rightarrow>
        if \<not> ok then Some ([], False)
        else if pos < length (sortedKeys h)
             then Some (lookupStr (ring h) (sortedKeys h ! pos), True)
             else None)"

text \<open>
  The loop of \<^verbatim>\<open>GetNodes\<close> (lines 144 to 153). \<^verbatim>\<open>returnedValues\<close> only ever stores
  \<^verbatim>\<open>true\<close>, so it is the set of its keys and its \<^verbatim>\<open>len\<close> is their number.
\<close>

fun collect ::
  "(HashKey \<rightharpoonup> string) \<Rightarrow> goint \<Rightarrow> HashKey list \<Rightarrow> string set \<Rightarrow> string list \<Rightarrow> string list" where
  "collect rg sz [] returnedValues resultSlice = resultSlice"
| "collect rg sz (key # keys) returnedValues resultSlice =
     (let val = lookupStr rg key;
          returnedValues' = (if val \<notin> returnedValues then insert val returnedValues
                             else returnedValues);
          resultSlice' = (if val \<notin> returnedValues then resultSlice @ [val] else resultSlice)
      in if int (card returnedValues') = sint sz then resultSlice'
         else collect rg sz keys returnedValues' resultSlice')"

text \<open>
  \<^verbatim>\<open>make(map[string]bool, size)\<close> takes its size argument as a hint and does not panic on a
  negative one. The slice expressions \<^verbatim>\<open>h.sortedKeys[pos:]\<close> and \<^verbatim>\<open>h.sortedKeys[:pos]\<close>
  need \<open>pos\<close> within the slice.
\<close>

definition GetNodes :: "HashRing \<Rightarrow> string \<Rightarrow> goint \<Rightarrow> (string list \<times> bool) option" where
  "GetNodes h stringKey sz =
     (case GetNodePos h stringKey of None \<Rightarrow> None | Some (pos, ok) \<Rightarrow>
        if \<not> ok then Some ([], False)
        else if sint sz > int (length (nodes h)) then Some ([], False)
        else if pos \<le> length (sortedKeys h)
             then (let mergedSortedKeys = drop pos (sortedKeys h) @ take pos (sortedKeys h);
                       resultSlice = collect (ring h) sz mergedSortedKeys {} []
                   in Some (resultSlice, int (length resultSlice) = sint sz))
             else None)"

text \<open>
  The mutators, on the value the receiver points to and with the value of the ring they
  return; the heap they work on follows in the next section. Copying \<^verbatim>\<open>h.weights\<close>
  entry by entry gives the same map whatever the order of the entries.
\<close>

definition AddWeightedNode :: "HashRing \<Rightarrow> string \<Rightarrow> goint \<Rightarrow> HashRing option" where
  "AddWeightedNode h node weight =
     (if sint weight \<le> 0 then Some h
      else if node \<in> set (nodes h) then Some h
      else build (hashProvider h) (nodes h @ [node]) ((weights h)(node \<mapsto> weight)))"

definition AddNode :: "HashRing \<Rightarrow> string \<Rightarrow> HashRing option" where
  "AddNode h node = AddWeightedNode h node 1"

definition RemoveNode :: "HashRing \<Rightarrow> string \<Rightarrow> HashRing option" where
  "RemoveNode h node =
     build (hashProvider h) (filter (\<lambda>eNode. eNode \<noteq> node) (nodes h)) ((weights h)(node := None))"

section \<open>The mutators on the heap\<close>

text \<open>
  Maps and slices are references. The heap holds, by type, the map objects, the backing
  arrays of the slices and the \<^verbatim>\<open>HashRing\<close> objects allocated so far; an address is an
  index into the list of its type, and an allocation adds at the end. A slice is the
  address of its backing array and its length; the length of the array is its capacity.
  The functions of the previous section compute on the values the pointers read as; the
  lemmas \<open>AddWeightedNodeAt_sim\<close> and \<open>RemoveNodeAt_sim\<close> below relate the two.
\<close>

record sliceRef =
  arrayAt :: nat
  lenAt :: nat

record HashRingObj =
  ringAt :: nat
  providerOf :: digest
  sortedKeysRef :: sliceRef
  nodesRef :: sliceRef
  weightsAt :: nat

record heap =
  ringMaps :: "(HashKey \<rightharpoonup> string) list"
  weightMaps :: "(string \<rightharpoonup> goint) list"
  keyArrays :: "HashKey list list"
  nodeArrays :: "string list list"
  objects :: "HashRingObj list"

definition sliceVal :: "'a list list \<Rightarrow> sliceRef \<Rightarrow> 'a list" where
  "sliceVal arrays s = take (lenAt s) (arrays ! arrayAt s)"

text \<open>
  \<^verbatim>\<open>append(s, x)\<close> writes into the backing array when the capacity allows, and
  otherwise allocates an array, copies and appends. How much capacity the new array gets
  beyond the new length is left to the implementation: \<open>grow\<close>.
\<close>

definition appendTo ::
  "(nat \<Rightarrow> nat) \<Rightarrow> 'a \<Rightarrow> 'a list list \<Rightarrow> sliceRef \<Rightarrow> 'a \<Rightarrow> 'a list list \<times> sliceRef" where
  "appendTo grow zero arrays s x =
     (let a = arrays ! arrayAt s
      in if lenAt s < length a
         then (arrays[arrayAt s := a[lenAt s := x]], s\<lparr>lenAt := lenAt s + 1\<rparr>)
         else (arrays @ [take (lenAt s) a @ [x] @ replicate (grow (lenAt s + 1)) zero],
               \<lparr>arrayAt = length arrays, lenAt = lenAt s + 1\<rparr>))"

text \<open>What a \<^verbatim>\<open>*HashRing\<close> points to, read through its references.\<close>

definition view :: "heap \<Rightarrow> nat \<Rightarrow> HashRing" where
  "view H h =
     (let obj = objects H ! h
      in \<lparr>ring = ringMaps H ! ringAt obj, hashProvider = providerOf obj,
          sortedKeys = sliceVal (keyArrays H) (sortedKeysRef obj),
          nodes = sliceVal (nodeArrays H) (nodesRef obj),
          weights = weightMaps H ! weightsAt obj\<rparr>)"

text \<open>
  \<^verbatim>\<open>generateCircle\<close> on the heap. Reads go through \<open>view\<close>; the writes are
  \<^verbatim>\<open>h.ring[key] = node\<close>, \<^verbatim>\<open>h.sortedKeys = append(h.sortedKeys, key)\<close> and the sort of
  \<^verbatim>\<open>h.sortedKeys\<close> in place.
\<close>

definition chunkStepAt ::
  "(nat \<Rightarrow> nat) \<Rightarrow> bytes \<Rightarrow> string \<Rightarrow> nat \<Rightarrow> nat \<Rightarrow> heap \<Rightarrow> heap option" where
  "chunkStepAt grow bKey node h i H =
     (case slice_expr bKey (i * 4) (i * 4 + 4) of None \<Rightarrow> None | Some c \<Rightarrow>
      case hashVal c of None \<Rightarrow> None | Some key \<Rightarrow>
        (let obj = objects H ! h;
             maps = (ringMaps H)[ringAt obj := (ringMaps H ! ringAt obj)(key \<mapsto> node)];
             (arrays, s) = appendTo grow 0 (keyArrays H) (sortedKeysRef obj) key
         in Some (H\<lparr>ringMaps := maps, keyArrays := arrays,
                     objects := (objects H)[h := obj\<lparr>sortedKeysRef := s\<rparr>]\<rparr>)))"

definition groupStepAt :: "(nat \<Rightarrow> nat) \<Rightarrow> string \<Rightarrow> nat \<Rightarrow> nat \<Rightarrow> heap \<Rightarrow> heap option" where
  "groupStepAt grow node h j H =
     (let nodeKey = node @ ''-'' @ itoa j;
          bKey = hashDigest (view H h) nodeKey
      in foldM (chunkStepAt grow bKey node h) [0..<3] H)"

definition nodeStepAt :: "(nat \<Rightarrow> nat) \<Rightarrow> goint \<Rightarrow> nat \<Rightarrow> string \<Rightarrow> heap \<Rightarrow> heap option" where
  "nodeStepAt grow tw h node H =
     foldM (groupStepAt grow node h) [0..<nat (factorOf (view H h) tw node)] H"

definition sortKeysAt :: "nat \<Rightarrow> heap \<Rightarrow> heap" where
  "sortKeysAt h H =
     (let s = sortedKeysRef (objects H ! h); a = keyArrays H ! arrayAt s
      in H\<lparr>keyArrays := (keyArrays H)[arrayAt s := sort (take (lenAt s) a) @ drop (lenAt s) a]\<rparr>)"

definition generateCircleAt :: "(nat \<Rightarrow> nat) \<Rightarrow> nat \<Rightarrow> heap \<Rightarrow> heap option" where
  "generateCircleAt grow h H =
     (case foldM (nodeStepAt grow (totalWeight (view H h)) h) (nodes (view H h)) H of
        None \<Rightarrow> None
      | Some H' \<Rightarrow> Some (sortKeysAt h H'))"

text \<open>
  The composite literal \<^verbatim>\<open>&HashRing{ring: make(...), hashProvider: hp,
  sortedKeys: make([]HashKey, 0), nodes: nodes, weights: weights}\<close>: a new map, a new
  array without capacity and a new object.
\<close>

definition newRingAt :: "digest \<Rightarrow> sliceRef \<Rightarrow> nat \<Rightarrow> heap \<Rightarrow> heap \<times> nat" where
  "newRingAt hp ns ws H =
     (H\<lparr>ringMaps := ringMaps H @ [Map.empty], keyArrays := keyArrays H @ [[]],
         objects := objects H @
           [\<lparr>ringAt = length (ringMaps H), providerOf = hp,
             sortedKeysRef = \<lparr>arrayAt = length (keyArrays H), lenAt = 0\<rparr>,
             nodesRef = ns, weightsAt = ws\<rparr>]\<rparr>,
      length (objects H))"

text \<open>
  \<^verbatim>\<open>AddWeightedNode\<close>: \<^verbatim>\<open>make([]string, len(h.nodes), len(h.nodes)+1)\<close> allocates an
  array of zero values, \<^verbatim>\<open>copy\<close> fills it and \<^verbatim>\<open>append\<close> has the capacity for the new
  node. The new map \<^verbatim>\<open>weights\<close> receives the entries of \<^verbatim>\<open>h.weights\<close> and then the
  weight of the node.
\<close>

definition AddWeightedNodeAt ::
  "(nat \<Rightarrow> nat) \<Rightarrow> heap \<Rightarrow> nat \<Rightarrow> string \<Rightarrow> goint \<Rightarrow> (heap \<times> nat) option" where
  "AddWeightedNodeAt grow H h node weight =
     (if sint weight \<le> 0 then Some (H, h)
      else if node \<in> set (nodes (view H h)) then Some (H, h)
      else (let made = \<lparr>arrayAt = length (nodeArrays H), lenAt = length (nodes (view H h))\<rparr>;
                copied = nodeArrays H @ [nodes (view H h) @ ['''']];
                (arrays, ns) = appendTo grow '''' copied made node;
                H1 = H\<lparr>nodeArrays := arrays,
                       weightMaps := weightMaps H @ [(weights (view H h))(node \<mapsto> weight)]\<rparr>;
                (H2, hashRing) = newRingAt (hashProvider (view H h)) ns (length (weightMaps H)) H1
            in case generateCircleAt grow hashRing H2 of None \<Rightarrow> None
               | Some H3 \<Rightarrow> Some (H3, hashRing)))"

definition AddNodeAt :: "(nat \<Rightarrow> nat) \<Rightarrow> heap \<Rightarrow> nat \<Rightarrow> string \<Rightarrow> (heap \<times> nat) option" where
  "AddNodeAt grow H h node = AddWeightedNodeAt grow H h node 1"

text \<open>
  \<^verbatim>\<open>RemoveNode\<close>: \<^verbatim>\<open>make([]string, 0)\<close> and one \<^verbatim>\<open>append\<close> for each node that stays.
\<close>

definition keepNodes ::
  "(nat \<Rightarrow> nat) \<Rightarrow> string \<Rightarrow> string list \<Rightarrow> string list list \<times> sliceRef \<Rightarrow> string list list \<times> sliceRef" where
  "keepNodes grow node ns start =
     fold (\<lambda>eNode (arrays, s). if eNode \<noteq> node then appendTo grow '''' arrays s eNode else (arrays, s))
       ns start"

definition RemoveNodeAt :: "(nat \<Rightarrow> nat) \<Rightarrow> heap \<Rightarrow> nat \<Rightarrow> string \<Rightarrow> (heap \<times> nat) option" where
  "RemoveNodeAt grow H h node =
     (let (arrays, ns) = keepNodes grow node (nodes (view H h))
                           (nodeArrays H @ [[]], \<lparr>arrayAt = length (nodeArrays H), lenAt = 0\<rparr>);
          H1 = H\<lparr>nodeArrays := arrays,
                 weightMaps := weightMaps H @ [(weights (view H h))(node := None)]\<rparr>;
          (H2, hashRing) = newRingAt (hashProvider (view H h)) ns (length (weightMaps H)) H1
      in case generateCircleAt grow hashRing H2 of None \<Rightarrow> None
         | Some H3 \<Rightarrow> Some (H3, hashRing))"

text \<open>Every reference of every object points into the heap.\<close>

definition wfHeap :: "heap \<Rightarrow> bool" where
  "wfHeap H \<longleftrightarrow>
     (\<forall>obj \<in> set (objects H).
        ringAt obj < length (ringMaps H) \<and> weightsAt obj < length (weightMaps H)
        \<and> arrayAt (sortedKeysRef obj) < length (keyArrays H)
        \<and> arrayAt (nodesRef obj) < length (nodeArrays H))"

text \<open>Everything allocated in the first heap is in the second, unchanged.\<close>

definition keeps :: "heap \<Rightarrow> heap \<Rightarrow> bool" where
  "keeps H H' \<longleftrightarrow>
     take (length (ringMaps H)) (ringMaps H') = ringMaps H
     \<and> take (length (weightMaps H)) (weightMaps H') = weightMaps H
     \<and> take (length (keyArrays H)) (keyArrays H') = keyArrays H
     \<and> take (length (nodeArrays H)) (nodeArrays H') = nodeArrays H
     \<and> take (length (objects H)) (objects H') = objects H"

text \<open>The object under construction and what the heap held before.\<close>

definition building :: "heap \<Rightarrow> nat \<Rightarrow> heap \<Rightarrow> bool" where
  "building H0 p H \<longleftrightarrow>
     keeps H0 H \<and> length (objects H0) = p \<and> length (objects H) = Suc p
     \<and> length (ringMaps H0) \<le> ringAt (objects H ! p)
     \<and> ringAt (objects H ! p) < length (ringMaps H)
     \<and> length (keyArrays H0) \<le> arrayAt (sortedKeysRef (objects H ! p))
     \<and> arrayAt (sortedKeysRef (objects H ! p)) < length (keyArrays H)
     \<and> lenAt (sortedKeysRef (objects H ! p))
         \<le> length (keyArrays H ! arrayAt (sortedKeysRef (objects H ! p)))
     \<and> arrayAt (nodesRef (objects H ! p)) < length (nodeArrays H)
     \<and> weightsAt (objects H ! p) < length (weightMaps H)"

definition sim :: "heap \<Rightarrow> nat \<Rightarrow> heap \<Rightarrow> HashRing \<Rightarrow> bool" where
  "sim H0 p H v \<longleftrightarrow> building H0 p H \<and> view H p = v"

section \<open>What \<^verbatim>\<open>generateCircle\<close> computes\<close>

text \<open>
  The key decoded from the chunk \<open>i\<close> of a digest, the points one group, one node and
  the whole node list add, and the condition under which no slice expression panics.
  The lemma \<open>generateCircle_eq\<close> below shows that this is what the loops compute.
\<close>

definition keyAt :: "bytes \<Rightarrow> nat \<Rightarrow> HashKey" where
  "keyAt b i =
     (let c = take 4 (drop (i * 4) (elems b @ spare b))
      in push_bit 24 (ucast (c ! 3)) OR push_bit 16 (ucast (c ! 2))
         OR push_bit 8 (ucast (c ! 1)) OR ucast (c ! 0))"

definition addPts :: "(HashKey \<times> string) list \<Rightarrow> HashRing \<Rightarrow> HashRing" where
  "addPts pts h = h\<lparr>ring := ring h ++ map_of (rev pts), sortedKeys := sortedKeys h @ map fst pts\<rparr>"

definition groupPts :: "digest \<Rightarrow> string \<Rightarrow> nat \<Rightarrow> (HashKey \<times> string) list" where
  "groupPts hp node j = map (\<lambda>i. (keyAt (hp (node @ ''-'' @ itoa j)) i, node)) [0..<3]"

definition nodePts :: "HashRing \<Rightarrow> goint \<Rightarrow> string \<Rightarrow> (HashKey \<times> string) list" where
  "nodePts h tw node =
     concat (map (groupPts (hashProvider h) node) [0..<nat (factorOf h tw node)])"

definition allPts :: "HashRing \<Rightarrow> (HashKey \<times> string) list" where
  "allPts h = concat (map (nodePts h (totalWeight h)) (nodes h))"

definition digestsOk :: "HashRing \<Rightarrow> bool" where
  "digestsOk h \<longleftrightarrow>
     (\<forall>node \<in> set (nodes h). \<forall>j < nat (factorOf h (totalWeight h) node).
        12 \<le> cap (hashProvider h (node @ ''-'' @ itoa j)))"

definition sameInput :: "HashRing \<Rightarrow> HashRing \<Rightarrow> bool" where
  "sameInput h s \<longleftrightarrow> hashProvider s = hashProvider h \<and> nodes s = nodes h \<and> weights s = weights h"

section \<open>The rings the package can hand out\<close>

text \<open>
  A ring is \<open>produced\<close> when a constructor returned it, or a mutator applied to a
  produced ring did.
\<close>

inductive produced :: "HashRing \<Rightarrow> bool" where
  byNew: "New md5 ns hpArg = Some r \<Longrightarrow> produced r"
| byNewWithWeights:
    "rangeOrder ws order \<Longrightarrow> NewWithWeights md5 order ws hpArg = Some r \<Longrightarrow> produced r"
| byAddNode: "produced h \<Longrightarrow> AddNode h node = Some r \<Longrightarrow> produced r"
| byAddWeightedNode: "produced h \<Longrightarrow> AddWeightedNode h node weight = Some r \<Longrightarrow> produced r"
| byRemoveNode: "produced h \<Longrightarrow> RemoveNode h node = Some r \<Longrightarrow> produced r"

text \<open>What every produced ring satisfies.\<close>

definition ringInv :: "HashRing \<Rightarrow> bool" where
  "ringInv h \<longleftrightarrow>
     sorted (sortedKeys h) \<and> set (sortedKeys h) = dom (ring h) \<and> ran (ring h) \<subseteq> set (nodes h)"

section \<open>The words of the specification\<close>

text \<open>The distinct elements of a list, each at its first occurrence.\<close>

fun firstSeen :: "'a list \<Rightarrow> 'a list" where
  "firstSeen [] = []"
| "firstSeen (x # xs) = x # removeAll x (firstSeen xs)"

text \<open>
  The number of point groups of a node:
  \<open>floor(40 * |nodes| * weight / totalWeight)\<close>, over the integers.
\<close>

definition specFactor :: "string list \<Rightarrow> (string \<rightharpoonup> goint) \<Rightarrow> string \<Rightarrow> int" where
  "specFactor ns ws node =
     (40 * int (length ns) * sint (weightOf ws node)) div (\<Sum>n\<leftarrow>ns. sint (weightOf ws n))"


section \<open>Example inputs\<close>

text \<open>
  Digest functions that only look at the first byte of the string. \<open>headDigest\<close>
  repeats it 16 times. \<open>cutDigest\<close> is that digest cut to its first 10 bytes by
  \<^verbatim>\<open>Sum(nil)[:10]\<close>, which keeps the capacity of 16. \<open>tinyDigest\<close> has 8 bytes in
  a backing array of 8. \<open>headKey\<close> is the key every chunk of the first two decodes
  to, and \<open>headLike\<close> is what the two have in common. The examples pass their
  provider to the constructors, so that the digest of the default provider, their first
  argument, plays no part.
\<close>

definition firstByte :: "string \<Rightarrow> byte" where
  "firstByte s = (case s of [] \<Rightarrow> 0 | c # _ \<Rightarrow> of_char c)"

definition headDigest :: digest where
  "headDigest s = \<lparr>elems = replicate 16 (firstByte s), spare = []\<rparr>"

definition cutDigest :: digest where
  "cutDigest s = \<lparr>elems = replicate 10 (firstByte s), spare = replicate 6 (firstByte s)\<rparr>"

definition tinyDigest :: digest where
  "tinyDigest s = \<lparr>elems = replicate 8 (firstByte s), spare = []\<rparr>"

definition headKey :: "string \<Rightarrow> HashKey" where
  "headKey s = (let b = firstByte s
                in push_bit 24 (ucast b) OR push_bit 16 (ucast b) OR push_bit 8 (ucast b) OR ucast b)"

definition headLike :: "digest \<Rightarrow> bool" where
  "headLike d \<longleftrightarrow> (\<forall>s. 12 \<le> cap (d s) \<and> (\<forall>i < 12. (elems (d s) @ spare (d s)) ! i = firstByte s))"

text \<open>
  Weight mappings, and the rings the constructors and mutators return on them. In
  decimal, the key of \<open>a\<close> is 1633771873, that of \<open>c\<close> is 1667457891 and that of
  \<open>d\<close> is 1684300900.
\<close>

definition weightsAC :: "string \<rightharpoonup> goint" where
  "weightsAC = [''a'' \<mapsto> 1, ''c'' \<mapsto> 1000]"


definition weightsBig :: "string \<rightharpoonup> goint" where
  "weightsBig = [''a'' \<mapsto> 4611686018427387904]"

definition ringAC :: HashRing where
  "ringAC = \<lparr>ring = [1633771873 \<mapsto> ''a'', 1667457891 \<mapsto> ''c''], hashProvider = headDigest,
             sortedKeys = replicate 120 1633771873 @ replicate 120 1667457891,
             nodes = [''a'', ''c''], weights = Map.empty\<rparr>"

definition ringC :: HashRing where
  "ringC = \<lparr>ring = [1667457891 \<mapsto> ''c''], hashProvider = headDigest,
            sortedKeys = replicate 237 1667457891,
            nodes = [''a'', ''c''], weights = weightsAC\<rparr>"

definition ringOnlyC :: HashRing where
  "ringOnlyC = \<lparr>ring = [1667457891 \<mapsto> ''c''], hashProvider = headDigest,
                sortedKeys = replicate 120 1667457891, nodes = [''c''], weights = Map.empty\<rparr>"

definition ringCD :: HashRing where
  "ringCD = \<lparr>ring = [1667457891 \<mapsto> ''c'', 1684300900 \<mapsto> ''d''], hashProvider = headDigest,
             sortedKeys = replicate 120 1667457891 @ replicate 120 1684300900,
             nodes = [''c'', ''d''], weights = [''d'' \<mapsto> 1]\<rparr>"

definition ringBig :: HashRing where
  "ringBig = \<lparr>ring = Map.empty, hashProvider = headDigest, sortedKeys = [],
              nodes = [''a''], weights = weightsBig\<rparr>"

definition ringCut :: HashRing where
  "ringCut = \<lparr>ring = [1633771873 \<mapsto> ''a''], hashProvider = cutDigest,
              sortedKeys = replicate 120 1633771873, nodes = [''a''], weights = Map.empty\<rparr>"



text \<open>
  A heap that holds the ring over \<open>a\<close> and \<open>c\<close>, and a growth policy: a new array
  gets as much spare capacity as it has elements.
\<close>

definition heapAC :: heap where
  "heapAC = \<lparr>ringMaps = [ring ringAC], weightMaps = [weights ringAC],
             keyArrays = [sortedKeys ringAC], nodeArrays = [nodes ringAC],
             objects = [\<lparr>ringAt = 0, providerOf = headDigest,
                         sortedKeysRef = \<lparr>arrayAt = 0, lenAt = 240\<rparr>,
                         nodesRef = \<lparr>arrayAt = 0, lenAt = 2\<rparr>, weightsAt = 0\<rparr>]\<rparr>"

definition doubling :: "nat \<Rightarrow> nat" where
  "doubling n = n"

section \<open>Properties\<close>

subsection \<open>The loops of \<^verbatim>\<open>generateCircle\<close>\<close>

text \<open>A loop whose body succeeds or fails independently of the state.\<close>

lemma foldM_fold:
  assumes "\<And>x s. x \<in> set xs \<Longrightarrow> I s \<Longrightarrow> f x s = (if ok x then Some (g x s) else None)"
    and "\<And>x s. x \<in> set xs \<Longrightarrow> I s \<Longrightarrow> I (g x s)"
    and "I s"
  shows "foldM f xs s = (if (\<forall>x \<in> set xs. ok x) then Some (fold g xs s) else None)"
  using assms
proof (induction xs arbitrary: s)
  case Nil
  then show ?case by simp
next
  case (Cons x xs)
  show ?case
  proof (cases "ok x")
    case True
    have st: "f x s = Some (g x s)" using Cons.prems(1)[of x s] Cons.prems(3) True by simp
    have "foldM f xs (g x s) = (if (\<forall>x \<in> set xs. ok x) then Some (fold g xs (g x s)) else None)"
      by (rule Cons.IH) (use Cons.prems in auto)
    then show ?thesis using st True by simp
  next
    case False
    have "f x s = None" using Cons.prems(1)[of x s] Cons.prems(3) False by simp
    then show ?thesis using False by simp
  qed
qed

lemma addPts_Nil: "addPts [] h = h"
  by (simp add: addPts_def)

lemma addPts_addPts: "addPts qs (addPts ps h) = addPts (ps @ qs) h"
  by (simp add: addPts_def map_add_assoc)

lemma fold_addPts: "fold (\<lambda>x. addPts (p x)) xs h = addPts (concat (map p xs)) h"
  by (induction xs arbitrary: h) (simp_all add: addPts_Nil addPts_addPts)

lemma sameInput_addPts: "sameInput h s \<Longrightarrow> sameInput h (addPts ps s)"
  by (simp add: sameInput_def addPts_def)

lemma sameInput_refl: "sameInput h h"
  by (simp add: sameInput_def)

lemma chunkStep_eq:
  "chunkStep b node i h =
     (if i * 4 + 4 \<le> cap b then Some (addPts [(keyAt b i, node)] h) else None)"
proof (cases "i * 4 + 4 \<le> cap b")
  case False
  then show ?thesis by (simp add: chunkStep_def slice_expr_def)
next
  case True
  define arr where "arr = elems b @ spare b"
  define c where "c = take 4 (drop (i * 4) arr)"
  have la: "i * 4 + 4 \<le> length arr" using True by (simp add: arr_def cap_def)
  then have lc: "length c = 4" by (simp add: c_def)
  have sl: "slice_expr b (i * 4) (i * 4 + 4) = Some \<lparr>elems = c, spare = drop (i * 4 + 4) arr\<rparr>"
    using True by (simp add: slice_expr_def arr_def c_def)
  have hv: "hashVal \<lparr>elems = c, spare = drop (i * 4 + 4) arr\<rparr> =
      Some (push_bit 24 (ucast (c ! 3)) OR push_bit 16 (ucast (c ! 2))
            OR push_bit 8 (ucast (c ! 1)) OR ucast (c ! 0))"
    using lc by (simp add: hashVal_def index_expr_def len_def)
  have ka: "keyAt b i = push_bit 24 (ucast (c ! 3)) OR push_bit 16 (ucast (c ! 2))
            OR push_bit 8 (ucast (c ! 1)) OR ucast (c ! 0)"
    by (simp add: keyAt_def c_def arr_def Let_def)
  show ?thesis using True
    by (simp add: chunkStep_def sl hv ka addPts_def)
qed

lemma groupStep_eq:
  "groupStep node j h =
     (if 12 \<le> cap (hashProvider h (node @ ''-'' @ itoa j))
      then Some (addPts (groupPts (hashProvider h) node j) h) else None)"
proof -
  let ?b = "hashProvider h (node @ ''-'' @ itoa j)"
  have "foldM (chunkStep ?b node) [0..<3] h =
      (if (\<forall>i \<in> set [0..<3]. i * 4 + 4 \<le> cap ?b)
       then Some (fold (\<lambda>i. addPts [(keyAt ?b i, node)]) [0..<3] h) else None)"
    by (rule foldM_fold [where I = "\<lambda>s. True"]) (simp_all add: chunkStep_eq)
  moreover have "(\<forall>i \<in> set [0..<3]. i * 4 + 4 \<le> cap ?b) \<longleftrightarrow> 12 \<le> cap ?b"
    by (auto simp: numeral_3_eq_3 less_Suc_eq)
  ultimately show ?thesis
    by (simp add: groupStep_def hashDigest_def Let_def fold_addPts groupPts_def del: upt_Suc)
      
qed

lemma factorOf_sameInput: "sameInput h s \<Longrightarrow> factorOf s tw node = factorOf h tw node"
  by (simp add: sameInput_def factorOf_def)

lemma nodePts_sameInput: "sameInput h s \<Longrightarrow> nodePts s tw node = nodePts h tw node"
  by (simp add: nodePts_def factorOf_sameInput) (simp add: sameInput_def)

lemma nodeStep_eq:
  "nodeStep tw node h =
     (if (\<forall>j < nat (factorOf h tw node). 12 \<le> cap (hashProvider h (node @ ''-'' @ itoa j)))
      then Some (addPts (nodePts h tw node) h) else None)"
proof -
  let ?js = "[0..<nat (factorOf h tw node)]"
  have "foldM (groupStep node) ?js h =
      (if (\<forall>j \<in> set ?js. 12 \<le> cap (hashProvider h (node @ ''-'' @ itoa j)))
       then Some (fold (\<lambda>j. addPts (groupPts (hashProvider h) node j)) ?js h) else None)"
  proof (rule foldM_fold [where I = "sameInput h"])
    fix j s assume "sameInput h s"
    then show "groupStep node j s =
        (if 12 \<le> cap (hashProvider h (node @ ''-'' @ itoa j))
         then Some (addPts (groupPts (hashProvider h) node j) s) else None)"
      by (simp add: groupStep_eq sameInput_def)
  qed (simp_all add: sameInput_addPts sameInput_refl)
  then show ?thesis
    by (simp add: nodeStep_def fold_addPts nodePts_def)
qed

lemma nodesLoop_eq:
  "foldM (nodeStep tw) (nodes h) h =
     (if (\<forall>node \<in> set (nodes h). \<forall>j < nat (factorOf h tw node).
            12 \<le> cap (hashProvider h (node @ ''-'' @ itoa j)))
      then Some (addPts (concat (map (nodePts h tw) (nodes h))) h) else None)"
proof -
  have "foldM (nodeStep tw) (nodes h) h =
      (if (\<forall>node \<in> set (nodes h). \<forall>j < nat (factorOf h tw node).
            12 \<le> cap (hashProvider h (node @ ''-'' @ itoa j)))
       then Some (fold (\<lambda>node. addPts (nodePts h tw node)) (nodes h) h) else None)"
  proof (rule foldM_fold [where I = "sameInput h"])
    fix node s assume s: "sameInput h s"
    then have "hashProvider s = hashProvider h" by (simp add: sameInput_def)
    then show "nodeStep tw node s =
        (if \<forall>j < nat (factorOf h tw node). 12 \<le> cap (hashProvider h (node @ ''-'' @ itoa j))
         then Some (addPts (nodePts h tw node) s) else None)"
      using s by (simp add: nodeStep_eq factorOf_sameInput nodePts_sameInput)
  qed (simp_all add: sameInput_addPts sameInput_refl)
  then show ?thesis by (simp add: fold_addPts)
qed

lemma generateCircle_eq:
  "generateCircle h =
     (if digestsOk h
      then Some (h\<lparr>ring := ring h ++ map_of (rev (allPts h)),
                   sortedKeys := sort (sortedKeys h @ map fst (allPts h))\<rparr>)
      else None)"
  by (simp add: generateCircle_def nodesLoop_eq digestsOk_def allPts_def addPts_def)

lemma emptyRing_sel:
  "ring (emptyRing hp ns ws) = Map.empty" "hashProvider (emptyRing hp ns ws) = hp"
  "sortedKeys (emptyRing hp ns ws) = []" "nodes (emptyRing hp ns ws) = ns"
  "weights (emptyRing hp ns ws) = ws"
  by (simp_all add: emptyRing_def)

lemma build_eq:
  "build hp ns ws =
     (if digestsOk (emptyRing hp ns ws)
      then Some \<lparr>ring = map_of (rev (allPts (emptyRing hp ns ws))), hashProvider = hp,
                 sortedKeys = sort (map fst (allPts (emptyRing hp ns ws))),
                 nodes = ns, weights = ws\<rparr>
      else None)"
  by (simp add: build_def generateCircle_eq) (simp add: emptyRing_def)

lemma length_nodePts: "length (nodePts h tw node) = nat (factorOf h tw node) * 3"
  by (simp add: nodePts_def groupPts_def length_concat comp_def sum_list_triv)

lemma length_allPts:
  "length (allPts h) = (\<Sum>node\<leftarrow>nodes h. nat (factorOf h (totalWeight h) node) * 3)"
  by (simp add: allPts_def length_concat comp_def length_nodePts)

lemma len_le_cap: "len b \<le> cap b"
  by (simp add: len_def cap_def)

subsection \<open>The invariant of the produced rings\<close>

lemma snd_nodePts: "(k, v) \<in> set (nodePts h tw node) \<Longrightarrow> v = node"
  by (auto simp: nodePts_def groupPts_def)

lemma snd_allPts: "(k, v) \<in> set (allPts h) \<Longrightarrow> v \<in> set (nodes h)"
  by (auto simp: allPts_def dest: snd_nodePts)

lemma build_inv:
  assumes "build hp ns ws = Some r"
  shows "ringInv r"
proof -
  let ?pts = "allPts (emptyRing hp ns ws)"
  have r: "r = \<lparr>ring = map_of (rev ?pts), hashProvider = hp,
                 sortedKeys = sort (map fst ?pts), nodes = ns, weights = ws\<rparr>"
    using assms by (simp add: build_eq split: if_splits)
  have "dom (map_of (rev ?pts)) = set (map fst ?pts)"
    by (simp add: dom_map_of_conv_image_fst)
  moreover have "ran (map_of (rev ?pts)) \<subseteq> set ns"
  proof
    fix v assume "v \<in> ran (map_of (rev ?pts))"
    then obtain k where "map_of (rev ?pts) k = Some v" by (auto simp: ran_def)
    then have "(k, v) \<in> set ?pts" by (auto dest: map_of_SomeD)
    then show "v \<in> set ns" using snd_allPts[of k v "emptyRing hp ns ws"] by (simp add: emptyRing_def)
  qed
  ultimately show ?thesis by (simp add: ringInv_def r)
qed

lemma produced_inv: "produced h \<Longrightarrow> ringInv h"
proof (induction rule: produced.induct)
  case (byNew md5 ns hpArg r)
  then show ?case by (auto simp: New_def intro: build_inv)
next
  case (byNewWithWeights ws order md5 hpArg r)
  then show ?case by (auto simp: NewWithWeights_def intro: build_inv)
next
  case (byAddNode h node r)
  then show ?case by (auto simp: AddNode_def AddWeightedNode_def split: if_splits intro: build_inv)
next
  case (byAddWeightedNode h node weight r)
  then show ?case by (auto simp: AddWeightedNode_def split: if_splits intro: build_inv)
next
  case (byRemoveNode h node r)
  then show ?case by (auto simp: RemoveNode_def intro: build_inv)
qed

lemma ringInv_nonempty:
  assumes "ringInv h" "ring h \<noteq> Map.empty"
  shows "sortedKeys h \<noteq> []" and "nodes h \<noteq> []"
proof -
  obtain k v where kv: "ring h k = Some v" using assms(2) by (fastforce simp: fun_eq_iff)
  then have "k \<in> set (sortedKeys h)" using assms(1) by (auto simp: ringInv_def)
  then show "sortedKeys h \<noteq> []" by auto
  have "v \<in> ran (ring h)" using kv by (auto simp: ran_def)
  then have "v \<in> set (nodes h)" using assms(1) by (auto simp: ringInv_def)
  then show "nodes h \<noteq> []" by auto
qed

subsection \<open>Locating a key\<close>

text \<open>\<^verbatim>\<open>sort.Search\<close> finds the least index of a predicate that stays true once it is.\<close>

lemma search_correct:
  assumes "lo \<le> hi" "hi \<le> n"
    and "\<And>i j. i \<le> j \<Longrightarrow> j < n \<Longrightarrow> f i \<Longrightarrow> f j"
    and "\<forall>i < lo. \<not> f i" and "\<forall>i. hi \<le> i \<and> i < n \<longrightarrow> f i"
  shows "lo \<le> search lo hi f \<and> search lo hi f \<le> hi
    \<and> (\<forall>i < search lo hi f. \<not> f i) \<and> (\<forall>i. search lo hi f \<le> i \<and> i < n \<longrightarrow> f i)"
  using assms
proof (induction lo hi f rule: search.induct)
  case (1 i j f)
  show ?case
  proof (cases "i < j")
    case False
    then show ?thesis using "1.prems" by (simp add: search.simps)
  next
    case True
    define h where "h = (i + j) div 2"
    have hb: "i \<le> h" "h < j" using True by (auto simp: h_def)
    show ?thesis
    proof (cases "f h")
      case False
      have nf: "\<forall>k < h + 1. \<not> f k"
      proof (intro allI impI)
        fix k assume "k < h + 1"
        then have "k \<le> h" by simp
        moreover have "h < n" using hb "1.prems"(2) by simp
        ultimately show "\<not> f k" using "1.prems"(3)[of k h] False by blast
      qed
      have eq: "search i j f = search (h + 1) j f"
        using True False by (subst search.simps) (simp add: h_def Let_def)
      have "h + 1 \<le> search (h + 1) j f \<and> search (h + 1) j f \<le> j
          \<and> (\<forall>k < search (h + 1) j f. \<not> f k) \<and> (\<forall>k. search (h + 1) j f \<le> k \<and> k < n \<longrightarrow> f k)"
        using "1.IH"(1)[OF True h_def [symmetric, THEN sym] False] hb "1.prems" nf
        by (simp add: h_def)
      then show ?thesis using eq hb by auto
    next
      case fh: True
      have up: "\<forall>k. h \<le> k \<and> k < n \<longrightarrow> f k"
        using "1.prems"(3) fh by blast
      have eq: "search i j f = search i h f"
        using True fh by (subst search.simps) (simp add: h_def Let_def)
      have "i \<le> search i h f \<and> search i h f \<le> h
          \<and> (\<forall>k < search i h f. \<not> f k) \<and> (\<forall>k. search i h f \<le> k \<and> k < n \<longrightarrow> f k)"
        using "1.IH"(2)[OF True h_def [symmetric, THEN sym]] fh hb "1.prems" up
        by (simp add: h_def)
      then show ?thesis using eq hb by auto
    qed
  qed
qed

lemma GenKey_Some:
  assumes "4 \<le> len (hashProvider h key)"
  shows "GenKey h key = Some (keyAt (hashProvider h key) 0)"
proof -
  let ?b = "hashProvider h key"
  have c: "0 * 4 + 4 \<le> cap ?b" using assms by (simp add: len_def cap_def)
  have "chunkStep ?b [] 0 h = Some (addPts [(keyAt ?b 0, [])] h)"
    using c by (simp only: chunkStep_eq if_True)
  then show ?thesis
    by (auto simp: chunkStep_def GenKey_def hashDigest_def addPts_def
        split: option.splits dest: arg_cong[where f = sortedKeys])
qed

lemma Search_sorted:
  fixes ns :: "('a::linorder) list" and key :: 'a
  assumes "sorted ns"
  defines "pos \<equiv> Search (length ns) (\<lambda>i. ns ! i > key)"
  shows "pos \<le> length ns" and "\<forall>i < pos. ns ! i \<le> key"
    and "\<forall>i. pos \<le> i \<and> i < length ns \<longrightarrow> key < ns ! i"
proof -
  let ?f = "\<lambda>i. ns ! i > key"
  have mono: "\<And>i j. i \<le> j \<Longrightarrow> j < length ns \<Longrightarrow> ?f i \<Longrightarrow> ?f j"
  proof -
    fix i j assume "i \<le> j" "j < length ns" "?f i"
    then have "ns ! i \<le> ns ! j" using assms(1) by (simp add: sorted_nth_mono)
    then show "?f j" using \<open>?f i\<close> by simp
  qed
  have "0 \<le> search 0 (length ns) ?f \<and> search 0 (length ns) ?f \<le> length ns
      \<and> (\<forall>i < search 0 (length ns) ?f. \<not> ?f i)
      \<and> (\<forall>i. search 0 (length ns) ?f \<le> i \<and> i < length ns \<longrightarrow> ?f i)"
    by (rule search_correct [where n = "length ns"]) (use mono in auto)
  then show "pos \<le> length ns" and "\<forall>i < pos. ns ! i \<le> key"
    and "\<forall>i. pos \<le> i \<and> i < length ns \<longrightarrow> key < ns ! i"
    by (auto simp: pos_def Search_def not_less)
qed

lemma GetNodePos_cases:
  assumes "ringInv h" "GetNodePos h key = Some (pos, ok)"
  shows "(ok \<longleftrightarrow> ring h \<noteq> Map.empty) \<and> (ok \<longrightarrow> pos < length (sortedKeys h))"
proof (cases "ring h = Map.empty")
  case True
  then show ?thesis using assms(2) by (simp add: GetNodePos_def)
next
  case False
  have ne: "sortedKeys h \<noteq> []" using ringInv_nonempty(1)[OF assms(1) False] .
  obtain k where gk: "GenKey h key = Some k"
    using assms(2) False by (auto simp: GetNodePos_def split: option.splits)
  define p where "p = Search (length (sortedKeys h)) (\<lambda>i. sortedKeys h ! i > k)"
  have srt: "sorted (sortedKeys h)" using assms(1) by (simp add: ringInv_def)
  have "p \<le> length (sortedKeys h)" using Search_sorted(1)[OF srt, of k] by (simp add: p_def)
  then show ?thesis using assms(2) False gk ne
    by (auto simp: GetNodePos_def p_def Let_def split: if_splits)
qed

lemma GetNodePos_total:
  assumes "ringInv h" and "4 \<le> len (hashProvider h key)"
  shows "\<exists>pos. GetNodePos h key = Some (pos, ring h \<noteq> Map.empty)
     \<and> (ring h \<noteq> Map.empty \<longrightarrow> pos < length (sortedKeys h))"
proof -
  have gk: "GenKey h key = Some (keyAt (hashProvider h key) 0)"
    using assms(2) by (rule GenKey_Some)
  have "GetNodePos h key \<noteq> None" by (simp add: GetNodePos_def gk Let_def del: not_None_eq)
  then obtain pos ok where p: "GetNodePos h key = Some (pos, ok)"
    by (cases "GetNodePos h key") auto
  show ?thesis using GetNodePos_cases[OF assms(1) p] p by auto
qed

subsection \<open>The walk of \<^verbatim>\<open>GetNodes\<close>\<close>

text \<open>
  A walk that does not end with as many nodes as asked for has seen every key, and
  returns the nodes of all of them.
\<close>

lemma set_firstSeen: "set (firstSeen xs) = set xs"
  by (induction xs) auto


lemma filter_removeAll_insert:
  "filter (\<lambda>v. v \<noteq> x \<and> v \<notin> A) xs = filter (\<lambda>v. v \<notin> A) (removeAll x xs)"
  by (induction xs) auto

lemma filter_removeAll_mem:
  "x \<in> A \<Longrightarrow> filter (\<lambda>v. v \<notin> A) (removeAll x xs) = filter (\<lambda>v. v \<notin> A) xs"
  by (induction xs) auto

lemma collect_full:
  assumes "seen = set res" and "distinct res"
    and "int (length (collect rg sz keys seen res)) \<noteq> sint sz"
  shows "collect rg sz keys seen res
    = res @ filter (\<lambda>v. v \<notin> set res) (firstSeen (map (lookupStr rg) keys))"
  using assms
proof (induction keys arbitrary: seen res)
  case Nil
  then show ?case by simp
next
  case (Cons key keys)
  define val where "val = lookupStr rg key"
  show ?case
  proof (cases "val \<in> seen")
    case True
    have card: "card seen = length res" using Cons.prems by (simp add: distinct_card)
    have neq: "int (card seen) \<noteq> sint sz"
    proof
      assume e: "int (card seen) = sint sz"
      then have "collect rg sz (key # keys) seen res = res" using True by (simp add: val_def Let_def)
      then show False using Cons.prems(3) e card by simp
    qed
    then have step: "collect rg sz (key # keys) seen res = collect rg sz keys seen res"
      using True by (simp add: val_def Let_def)
    have "collect rg sz keys seen res
        = res @ filter (\<lambda>v. v \<notin> set res) (firstSeen (map (lookupStr rg) keys))"
      using Cons.IH[of seen res] Cons.prems step by simp
    then show ?thesis using step True Cons.prems(1)
      by (simp add: val_def [symmetric] filter_removeAll_mem)
  next
    case False
    let ?seen = "insert val seen" and ?res = "res @ [val]"
    have s': "?seen = set ?res" using Cons.prems(1) by simp
    have d': "distinct ?res" using Cons.prems(1,2) False by simp
    have card: "card ?seen = length ?res" using s' d' by (metis distinct_card)
    have neq: "int (card ?seen) \<noteq> sint sz"
    proof
      assume e: "int (card ?seen) = sint sz"
      then have "collect rg sz (key # keys) seen res = ?res"
        using False by (simp add: val_def Let_def)
      then show False using Cons.prems(3) e card by simp
    qed
    then have step: "collect rg sz (key # keys) seen res = collect rg sz keys ?seen ?res"
      using False by (simp add: val_def Let_def)
    have "collect rg sz keys ?seen ?res
        = ?res @ filter (\<lambda>v. v \<notin> set ?res) (firstSeen (map (lookupStr rg) keys))"
      using Cons.IH[OF s' d'] Cons.prems(3) step by simp
    then show ?thesis using step False Cons.prems(1)
      by (simp add: val_def [symmetric] filter_removeAll_insert)
  qed
qed

lemma collect_length_ge:
  "length res \<le> length (collect rg sz keys seen res)"
proof (induction keys arbitrary: seen res)
  case Nil
  then show ?case by simp
next
  case (Cons key keys)
  have a: "length res \<le> length (collect rg sz keys seen res)" by (rule Cons.IH)
  have b: "length (res @ [lookupStr rg key])
      \<le> length (collect rg sz keys (insert (lookupStr rg key) seen) (res @ [lookupStr rg key]))"
    by (rule Cons.IH)
  show ?case using a b by (auto simp: Let_def)
qed




lemma lookupStr_image_dom: "lookupStr m ` dom m = ran m"
  by (force simp: lookupStr_def ran_def dom_def image_iff)

lemma set_rotate_keys: "pos \<le> length ks \<Longrightarrow> set (drop pos ks @ take pos ks) = set ks"
  by (metis append_take_drop_id set_append sup_commute)

subsection \<open>The mutators on the heap and on values\<close>

text \<open>
  Each step on the heap is the step on the value the pointer reads as, and writes only
  to what the call allocated.
\<close>

lemma foldM_rel:
  assumes "\<And>x s t. x \<in> set xs \<Longrightarrow> R s t \<Longrightarrow> rel_option R (f x s) (g x t)" and "R s t"
  shows "rel_option R (foldM f xs s) (foldM g xs t)"
  using assms
proof (induction xs arbitrary: s t)
  case Nil
  then show ?case by simp
next
  case (Cons x xs)
  have st: "rel_option R (f x s) (g x t)" using Cons.prems by simp
  show ?case
  proof (cases "f x s")
    case None
    then have "g x t = None" using st by (cases "g x t") simp_all
    then show ?thesis using None by simp
  next
    case (Some s')
    then obtain t' where t': "g x t = Some t'" and r: "R s' t'"
      using st by (cases "g x t") simp_all
    have "rel_option R (foldM f xs s') (foldM g xs t')"
      by (rule Cons.IH) (use Cons.prems r in auto)
    then show ?thesis using Some t' by simp
  qed
qed

lemma appendTo_props:
  assumes "appendTo grow z arrays s x = (arrays', s')"
    and "arrayAt s < length arrays" and "lenAt s \<le> length (arrays ! arrayAt s)"
  shows "sliceVal arrays' s' = sliceVal arrays s @ [x]"
    and "arrayAt s' < length arrays'" and "lenAt s' \<le> length (arrays' ! arrayAt s')"
    and "n \<le> arrayAt s \<Longrightarrow> n \<le> length arrays \<Longrightarrow> take n arrays' = take n arrays"
    and "n \<le> arrayAt s \<Longrightarrow> n \<le> arrayAt s'"
    and "length arrays \<le> length arrays'"
proof -
  let ?a = "arrays ! arrayAt s"
  show "sliceVal arrays' s' = sliceVal arrays s @ [x]"
  proof (cases "lenAt s < length ?a")
    case True
    then have e: "arrays' = arrays[arrayAt s := ?a[lenAt s := x]]" "s' = s\<lparr>lenAt := lenAt s + 1\<rparr>"
      using assms(1) by (simp_all add: appendTo_def Let_def)
    show ?thesis using True assms(2)
      by (simp add: e sliceVal_def take_Suc_conv_app_nth)
  next
    case False
    then have e: "arrays' = arrays @ [take (lenAt s) ?a @ [x] @ replicate (grow (lenAt s + 1)) z]"
      "s' = \<lparr>arrayAt = length arrays, lenAt = lenAt s + 1\<rparr>"
      using assms(1) by (simp_all add: appendTo_def Let_def)
    show ?thesis using False assms(3) by (simp add: e sliceVal_def)
  qed
  show "arrayAt s' < length arrays'" using assms
    by (auto simp: appendTo_def Let_def split: if_splits)
  show "lenAt s' \<le> length (arrays' ! arrayAt s')" using assms
    by (auto simp: appendTo_def Let_def split: if_splits)
  show "n \<le> arrayAt s \<Longrightarrow> n \<le> length arrays \<Longrightarrow> take n arrays' = take n arrays" using assms
    by (auto simp: appendTo_def Let_def split: if_splits)
  show "n \<le> arrayAt s \<Longrightarrow> n \<le> arrayAt s'" using assms
    by (auto simp: appendTo_def Let_def split: if_splits)
  show "length arrays \<le> length arrays'" using assms
    by (auto simp: appendTo_def Let_def split: if_splits)
qed

lemma keeps_length:
  assumes "keeps H0 H"
  shows "length (ringMaps H0) \<le> length (ringMaps H)" "length (weightMaps H0) \<le> length (weightMaps H)"
    "length (keyArrays H0) \<le> length (keyArrays H)" "length (nodeArrays H0) \<le> length (nodeArrays H)"
    "length (objects H0) \<le> length (objects H)"
proof -
  have l: "\<And>(xs :: 'a list) ys. take (length xs) ys = xs \<Longrightarrow> length xs \<le> length ys"
    by (metis length_take min.cobounded1 min.commute)
  show "length (ringMaps H0) \<le> length (ringMaps H)" "length (weightMaps H0) \<le> length (weightMaps H)"
    "length (keyArrays H0) \<le> length (keyArrays H)" "length (nodeArrays H0) \<le> length (nodeArrays H)"
    "length (objects H0) \<le> length (objects H)"
    using assms by (auto simp: keeps_def intro: l)
qed

lemma chunkStepAt_sim:
  assumes "sim H0 p H v"
  shows "rel_option (sim H0 p) (chunkStepAt grow bKey node p i H) (chunkStep bKey node i v)"
proof (cases "slice_expr bKey (i * 4) (i * 4 + 4)")
  case None
  then show ?thesis by (simp add: chunkStepAt_def chunkStep_def)
next
  case (Some c)
  show ?thesis
  proof (cases "hashVal c")
    case None
    then show ?thesis using Some by (simp add: chunkStepAt_def chunkStep_def)
  next
    case (Some key)
    define obj where "obj = objects H ! p"
    define maps where "maps = (ringMaps H)[ringAt obj := (ringMaps H ! ringAt obj)(key \<mapsto> node)]"
    obtain arrays s where ap: "appendTo grow 0 (keyArrays H) (sortedKeysRef obj) key = (arrays, s)"
      by (cases "appendTo grow 0 (keyArrays H) (sortedKeysRef obj) key") auto
    define H' where "H' = H\<lparr>ringMaps := maps, keyArrays := arrays,
                     objects := (objects H)[p := obj\<lparr>sortedKeysRef := s\<rparr>]\<rparr>"
    have b: "building H0 p H" and vw: "view H p = v" using assms by (simp_all add: sim_def)
    have k: "keeps H0 H" and p0: "length (objects H0) = p" and pl: "length (objects H) = Suc p"
      and nv: "arrayAt (nodesRef obj) < length (nodeArrays H)"
      and wv: "weightsAt obj < length (weightMaps H)"
      and r0: "length (ringMaps H0) \<le> ringAt obj" and rl: "ringAt obj < length (ringMaps H)"
      and a0: "length (keyArrays H0) \<le> arrayAt (sortedKeysRef obj)"
      and al: "arrayAt (sortedKeysRef obj) < length (keyArrays H)"
      and ll: "lenAt (sortedKeysRef obj) \<le> length (keyArrays H ! arrayAt (sortedKeysRef obj))"
      using b by (simp_all add: building_def obj_def)
    note A = appendTo_props[OF ap al ll]
    have lhs: "chunkStepAt grow bKey node p i H = Some H'"
      using \<open>slice_expr bKey (i * 4) (i * 4 + 4) = Some c\<close> Some ap
      by (simp add: chunkStepAt_def Let_def obj_def [symmetric] maps_def H'_def)
    have rhs: "chunkStep bKey node i v
        = Some (v\<lparr>ring := (ring v)(key \<mapsto> node), sortedKeys := sortedKeys v @ [key]\<rparr>)"
      using \<open>slice_expr bKey (i * 4) (i * 4 + 4) = Some c\<close> Some by (simp add: chunkStep_def)
    have o': "objects H' ! p = obj\<lparr>sortedKeysRef := s\<rparr>" using pl by (simp add: H'_def)
    have v': "view H' p = v\<lparr>ring := (ring v)(key \<mapsto> node), sortedKeys := sortedKeys v @ [key]\<rparr>"
      using vw rl A(1)
      by (simp add: view_def Let_def o' obj_def [symmetric]) (auto simp: H'_def maps_def)
    have k': "keeps H0 H'"
      using k r0 p0 A(4)[OF a0 keeps_length(3)[OF k]]
      by (simp add: keeps_def H'_def maps_def)
    have b': "building H0 p H'"
      using k' p0 pl r0 rl nv wv A(2,3) A(5)[OF a0]
      by (simp add: building_def o') (simp add: H'_def maps_def)
    show ?thesis using lhs rhs v' b' by (simp add: sim_def)
  qed
qed

lemma groupStepAt_sim:
  assumes "sim H0 p H v"
  shows "rel_option (sim H0 p) (groupStepAt grow node p j H) (groupStep node j v)"
proof -
  have "view H p = v" using assms by (simp add: sim_def)
  then have d: "hashDigest (view H p) (node @ ''-'' @ itoa j) = hashDigest v (node @ ''-'' @ itoa j)"
    by simp
  show ?thesis
    unfolding groupStepAt_def groupStep_def Let_def d
    by (rule foldM_rel) (auto intro: chunkStepAt_sim assms)
qed

lemma nodeStepAt_sim:
  assumes "sim H0 p H v"
  shows "rel_option (sim H0 p) (nodeStepAt grow tw p node H) (nodeStep tw node v)"
proof -
  have "view H p = v" using assms by (simp add: sim_def)
  then have f: "factorOf (view H p) tw node = factorOf v tw node" by simp
  show ?thesis
    unfolding nodeStepAt_def nodeStep_def f
    by (rule foldM_rel) (auto intro: groupStepAt_sim assms)
qed

lemma sortKeysAt_sim:
  assumes "sim H0 p H v"
  shows "sim H0 p (sortKeysAt p H) (v\<lparr>sortedKeys := sort (sortedKeys v)\<rparr>)"
proof -
  define obj where "obj = objects H ! p"
  define s where "s = sortedKeysRef obj"
  define a where "a = keyArrays H ! arrayAt s"
  define H' where "H' = H\<lparr>keyArrays := (keyArrays H)[arrayAt s := sort (take (lenAt s) a) @ drop (lenAt s) a]\<rparr>"
  have e: "sortKeysAt p H = H'"
    by (simp add: sortKeysAt_def Let_def obj_def s_def a_def H'_def)
  have b: "building H0 p H" and vw: "view H p = v" using assms by (simp_all add: sim_def)
  have k: "keeps H0 H" and a0: "length (keyArrays H0) \<le> arrayAt s"
    and al: "arrayAt s < length (keyArrays H)" and ll: "lenAt s \<le> length a"
    using b by (simp_all add: building_def obj_def s_def a_def)
  have "sliceVal (keyArrays H') s = sort (sliceVal (keyArrays H) s)"
    using al ll by (simp add: sliceVal_def H'_def a_def [symmetric])
  then have v': "view H' p = v\<lparr>sortedKeys := sort (sortedKeys v)\<rparr>"
    using vw by (simp add: view_def Let_def) (auto simp: H'_def obj_def s_def)
  have k': "keeps H0 H'" using k a0 by (simp add: keeps_def H'_def)
  have "building H0 p H'"
    using b k' ll by (simp add: building_def) (simp add: H'_def obj_def [symmetric] s_def [symmetric] a_def [symmetric])
  then show ?thesis using v' e by (simp add: sim_def)
qed

lemma generateCircleAt_sim:
  assumes "sim H0 p H v"
  shows "rel_option (sim H0 p) (generateCircleAt grow p H) (generateCircle v)"
proof -
  have vw: "view H p = v" using assms by (simp add: sim_def)
  have l: "rel_option (sim H0 p) (foldM (nodeStepAt grow (totalWeight v) p) (nodes v) H)
      (foldM (nodeStep (totalWeight v)) (nodes v) v)"
    by (rule foldM_rel) (auto intro: nodeStepAt_sim assms)
  show ?thesis
  proof (cases "foldM (nodeStep (totalWeight v)) (nodes v) v")
    case None
    then have "foldM (nodeStepAt grow (totalWeight v) p) (nodes v) H = None"
      using l by (cases "foldM (nodeStepAt grow (totalWeight v) p) (nodes v) H") simp_all
    then show ?thesis using None by (simp add: generateCircleAt_def generateCircle_def vw)
  next
    case (Some v')
    then obtain H' where h: "foldM (nodeStepAt grow (totalWeight v) p) (nodes v) H = Some H'"
      and s: "sim H0 p H' v'"
      using l by (cases "foldM (nodeStepAt grow (totalWeight v) p) (nodes v) H") simp_all
    show ?thesis using Some h sortKeysAt_sim[OF s]
      by (simp add: generateCircleAt_def generateCircle_def vw)
  qed
qed

lemma keeps_refl: "keeps H H"
  by (simp add: keeps_def)

lemma keeps_view:
  assumes "keeps H H'" and "wfHeap H" and "q < length (objects H)"
  shows "view H' q = view H q"
proof -
  have n: "\<And>(xs :: 'a list) ys i. take (length xs) ys = xs \<Longrightarrow> i < length xs \<Longrightarrow> ys ! i = xs ! i"
    by (metis nth_take)
  define obj where "obj = objects H ! q"
  have o: "objects H' ! q = obj" using assms(1,3) by (auto simp: keeps_def obj_def intro: n)
  have "obj \<in> set (objects H)" using assms(3) by (simp add: obj_def)
  then have w: "ringAt obj < length (ringMaps H)" "weightsAt obj < length (weightMaps H)"
    "arrayAt (sortedKeysRef obj) < length (keyArrays H)"
    "arrayAt (nodesRef obj) < length (nodeArrays H)"
    using assms(2) by (auto simp: wfHeap_def)
  have "ringMaps H' ! ringAt obj = ringMaps H ! ringAt obj"
    "weightMaps H' ! weightsAt obj = weightMaps H ! weightsAt obj"
    "keyArrays H' ! arrayAt (sortedKeysRef obj) = keyArrays H ! arrayAt (sortedKeysRef obj)"
    "nodeArrays H' ! arrayAt (nodesRef obj) = nodeArrays H ! arrayAt (nodesRef obj)"
    using assms(1) w by (auto simp: keeps_def intro: n)
  then show ?thesis by (simp add: view_def Let_def o obj_def [symmetric] sliceVal_def)
qed

lemma newRingAt_sim:
  assumes "newRingAt hp ns ws H1 = (H2, p)" and "keeps H0 H1"
    and "objects H1 = objects H0"
    and "arrayAt ns < length (nodeArrays H1)" and "ws < length (weightMaps H1)"
  shows "sim H0 p H2 (emptyRing hp (sliceVal (nodeArrays H1) ns) (weightMaps H1 ! ws))"
    and "p = length (objects H1)"
proof -
  have e: "H2 = H1\<lparr>ringMaps := ringMaps H1 @ [Map.empty], keyArrays := keyArrays H1 @ [[]],
         objects := objects H1 @
           [\<lparr>ringAt = length (ringMaps H1), providerOf = hp,
             sortedKeysRef = \<lparr>arrayAt = length (keyArrays H1), lenAt = 0\<rparr>,
             nodesRef = ns, weightsAt = ws\<rparr>]\<rparr>"
    and p: "p = length (objects H1)"
    using assms(1) by (simp_all add: newRingAt_def)
  note L = keeps_length[OF assms(2)]
  have v: "view H2 p = emptyRing hp (sliceVal (nodeArrays H1) ns) (weightMaps H1 ! ws)"
    by (simp add: view_def e p emptyRing_def sliceVal_def)
  have k: "keeps H0 H2" using assms(2) L by (simp add: keeps_def e)
  have "building H0 p H2" using k L assms(3,4,5) by (simp add: building_def e p)
  then show "sim H0 p H2 (emptyRing hp (sliceVal (nodeArrays H1) ns) (weightMaps H1 ! ws))"
    using v by (simp add: sim_def)
  show "p = length (objects H1)" by (rule p)
qed

lemma keepNodes_props:
  assumes "keepNodes grow node ns (arrays0, s0) = (arrays, s)"
    and "arrayAt s0 < length arrays0" and "lenAt s0 \<le> length (arrays0 ! arrayAt s0)"
    and "n \<le> arrayAt s0" and "n \<le> length arrays0"
  shows "sliceVal arrays s = sliceVal arrays0 s0 @ filter (\<lambda>eNode. eNode \<noteq> node) ns
    \<and> take n arrays = take n arrays0 \<and> arrayAt s < length arrays"
  using assms
proof (induction ns arbitrary: arrays0 s0)
  case Nil
  then show ?case by (simp add: keepNodes_def)
next
  case (Cons eNode ns)
  show ?case
  proof (cases "eNode \<noteq> node")
    case False
    then have "keepNodes grow node ns (arrays0, s0) = (arrays, s)"
      using Cons.prems(1) by (simp add: keepNodes_def)
    then show ?thesis using Cons.IH[of arrays0 s0] Cons.prems False by simp
  next
    case True
    obtain arrays1 s1 where ap: "appendTo grow '''' arrays0 s0 eNode = (arrays1, s1)"
      by (cases "appendTo grow '''' arrays0 s0 eNode") auto
    note A = appendTo_props[OF ap Cons.prems(2,3)]
    have "keepNodes grow node ns (arrays1, s1) = (arrays, s)"
      using Cons.prems(1) True ap by (simp add: keepNodes_def)
    then have "sliceVal arrays s = sliceVal arrays1 s1 @ filter (\<lambda>eNode. eNode \<noteq> node) ns
        \<and> take n arrays = take n arrays1 \<and> arrayAt s < length arrays"
      using A(2,3) A(5)[OF Cons.prems(4)] A(6) Cons.prems(5)
      by (intro Cons.IH) simp_all
    then show ?thesis using A(1) A(4)[OF Cons.prems(4,5)] True by simp
  qed
qed

lemma take_append_same: "take (length xs) (xs @ ys) = xs"
  by simp

lemma AddWeightedNodeAt_sim:
  assumes "0 < sint weight" and "node \<notin> set (nodes (view H h))"
  shows "rel_option (\<lambda>(H', r) v. r = length (objects H) \<and> sim H r H' v)
           (AddWeightedNodeAt grow H h node weight) (AddWeightedNode (view H h) node weight)"
proof -
  define ns0 where "ns0 = nodes (view H h)"
  define made where "made = \<lparr>arrayAt = length (nodeArrays H), lenAt = length ns0\<rparr>"
  define copied where "copied = nodeArrays H @ [ns0 @ ['''']]"
  obtain arrays ns where ap: "appendTo grow '''' copied made node = (arrays, ns)"
    by (cases "appendTo grow '''' copied made node") auto
  define H1 where "H1 = H\<lparr>nodeArrays := arrays,
      weightMaps := weightMaps H @ [(weights (view H h))(node \<mapsto> weight)]\<rparr>"
  obtain H2 p where nr: "newRingAt (hashProvider (view H h)) ns (length (weightMaps H)) H1 = (H2, p)"
    by (cases "newRingAt (hashProvider (view H h)) ns (length (weightMaps H)) H1") auto
  have a1: "arrayAt made < length copied" by (simp add: made_def copied_def)
  have a2: "lenAt made \<le> length (copied ! arrayAt made)" by (simp add: made_def copied_def)
  note A = appendTo_props[OF ap a1 a2]
  have sv: "sliceVal arrays ns = ns0 @ [node]"
    using A(1) by (simp add: sliceVal_def made_def copied_def)
  have "take (length (nodeArrays H)) arrays = take (length (nodeArrays H)) copied"
    by (rule A(4)) (simp_all add: made_def copied_def)
  then have tk: "take (length (nodeArrays H)) arrays = nodeArrays H" by (simp add: copied_def)
  have k1: "keeps H H1" by (simp add: keeps_def H1_def tk)
  have "arrayAt ns < length arrays" by (rule A(2))
  then have n1: "arrayAt ns < length (nodeArrays H1)" by (simp add: H1_def)
  have o1: "objects H1 = objects H" and w1: "length (weightMaps H) < length (weightMaps H1)"
    by (simp_all add: H1_def)
  note N = newRingAt_sim[OF nr k1 o1 n1 w1]
  have p: "p = length (objects H)" using N(2) by (simp add: H1_def)
  have s2: "sim H p H2 (emptyRing (hashProvider (view H h)) (ns0 @ [node])
      ((weights (view H h))(node \<mapsto> weight)))"
    using N(1) by (simp add: H1_def sv)
  have lhs: "AddWeightedNodeAt grow H h node weight
      = (case generateCircleAt grow p H2 of None \<Rightarrow> None | Some H3 \<Rightarrow> Some (H3, p))"
    using assms ap nr
    by (simp add: AddWeightedNodeAt_def Let_def ns0_def [symmetric] made_def [symmetric]
        copied_def [symmetric] H1_def [symmetric])
  have rhs: "AddWeightedNode (view H h) node weight
      = generateCircle (emptyRing (hashProvider (view H h)) (ns0 @ [node])
          ((weights (view H h))(node \<mapsto> weight)))"
    using assms by (simp add: AddWeightedNode_def build_def ns0_def)
  have "rel_option (sim H p) (generateCircleAt grow p H2)
      (generateCircle (emptyRing (hashProvider (view H h)) (ns0 @ [node])
          ((weights (view H h))(node \<mapsto> weight))))"
    using s2 by (rule generateCircleAt_sim)
  then show ?thesis unfolding lhs rhs using p
    by (auto simp: option.rel_sel split: option.splits)
qed

lemma RemoveNodeAt_sim:
  "rel_option (\<lambda>(H', r) v. r = length (objects H) \<and> sim H r H' v)
     (RemoveNodeAt grow H h node) (RemoveNode (view H h) node)"
proof -
  define ns0 where "ns0 = nodes (view H h)"
  define s0 where "s0 = \<lparr>arrayAt = length (nodeArrays H), lenAt = 0\<rparr>"
  obtain arrays ns where kn: "keepNodes grow node ns0 (nodeArrays H @ [[]], s0) = (arrays, ns)"
    by (cases "keepNodes grow node ns0 (nodeArrays H @ [[]], s0)") auto
  define H1 where "H1 = H\<lparr>nodeArrays := arrays,
      weightMaps := weightMaps H @ [(weights (view H h))(node := None)]\<rparr>"
  obtain H2 p where nr: "newRingAt (hashProvider (view H h)) ns (length (weightMaps H)) H1 = (H2, p)"
    by (cases "newRingAt (hashProvider (view H h)) ns (length (weightMaps H)) H1") auto
  have K: "sliceVal arrays ns = sliceVal (nodeArrays H @ [[]]) s0 @ filter (\<lambda>eNode. eNode \<noteq> node) ns0
      \<and> take (length (nodeArrays H)) arrays = take (length (nodeArrays H)) (nodeArrays H @ [[]])
      \<and> arrayAt ns < length arrays"
    by (rule keepNodes_props[OF kn]) (simp_all add: s0_def)
  have sv: "sliceVal arrays ns = filter (\<lambda>eNode. eNode \<noteq> node) ns0"
    using K by (simp add: sliceVal_def s0_def)
  have tk: "take (length (nodeArrays H)) arrays = nodeArrays H" using K by simp
  have k1: "keeps H H1" by (simp add: keeps_def H1_def tk)
  have n1: "arrayAt ns < length (nodeArrays H1)" using K by (simp add: H1_def)
  have o1: "objects H1 = objects H" and w1: "length (weightMaps H) < length (weightMaps H1)"
    by (simp_all add: H1_def)
  note N = newRingAt_sim[OF nr k1 o1 n1 w1]
  have p: "p = length (objects H)" using N(2) by (simp add: H1_def)
  have s2: "sim H p H2 (emptyRing (hashProvider (view H h)) (filter (\<lambda>eNode. eNode \<noteq> node) ns0)
      ((weights (view H h))(node := None)))"
    using N(1) by (simp add: H1_def sv)
  have lhs: "RemoveNodeAt grow H h node
      = (case generateCircleAt grow p H2 of None \<Rightarrow> None | Some H3 \<Rightarrow> Some (H3, p))"
    using kn nr
    by (simp add: RemoveNodeAt_def Let_def ns0_def [symmetric] s0_def [symmetric] H1_def [symmetric])
  have rhs: "RemoveNode (view H h) node
      = generateCircle (emptyRing (hashProvider (view H h)) (filter (\<lambda>eNode. eNode \<noteq> node) ns0)
          ((weights (view H h))(node := None)))"
    by (simp add: RemoveNode_def build_def ns0_def)
  have "rel_option (sim H p) (generateCircleAt grow p H2)
      (generateCircle (emptyRing (hashProvider (view H h)) (filter (\<lambda>eNode. eNode \<noteq> node) ns0)
          ((weights (view H h))(node := None))))"
    using s2 by (rule generateCircleAt_sim)
  then show ?thesis unfolding lhs rhs using p
    by (auto simp: option.rel_sel split: option.splits)
qed

lemma building_wfHeap:
  assumes "wfHeap H0" and "building H0 p H"
  shows "wfHeap H"
  unfolding wfHeap_def
proof
  fix obj assume "obj \<in> set (objects H)"
  then obtain i where i: "i < length (objects H)" and o: "obj = objects H ! i"
    by (auto simp: in_set_conv_nth)
  have k: "keeps H0 H" and p: "length (objects H0) = p" and l: "length (objects H) = Suc p"
    using assms(2) by (simp_all add: building_def)
  note L = keeps_length[OF k]
  show "ringAt obj < length (ringMaps H) \<and> weightsAt obj < length (weightMaps H)
      \<and> arrayAt (sortedKeysRef obj) < length (keyArrays H)
      \<and> arrayAt (nodesRef obj) < length (nodeArrays H)"
  proof (cases "i = p")
    case True
    then show ?thesis using assms(2) o by (simp add: building_def)
  next
    case False
    then have ip: "i < length (objects H0)" using i l p by simp
    have "take (length (objects H0)) (objects H) = objects H0" using k by (simp add: keeps_def)
    then have "objects H ! i = objects H0 ! i" using ip by (metis nth_take)
    then have "obj \<in> set (objects H0)" using o ip by simp
    then have "ringAt obj < length (ringMaps H0) \<and> weightsAt obj < length (weightMaps H0)
        \<and> arrayAt (sortedKeysRef obj) < length (keyArrays H0)
        \<and> arrayAt (nodesRef obj) < length (nodeArrays H0)"
      using assms(1) by (simp add: wfHeap_def)
    then show ?thesis using L by simp
  qed
qed

lemma mutators_return:
  "(AddWeightedNodeAt grow H h node weight = None \<longleftrightarrow> AddWeightedNode (view H h) node weight = None)"
  "(RemoveNodeAt grow H h node = None \<longleftrightarrow> RemoveNode (view H h) node = None)"
proof -
  show "AddWeightedNodeAt grow H h node weight = None \<longleftrightarrow> AddWeightedNode (view H h) node weight = None"
  proof (cases "sint weight \<le> 0 \<or> node \<in> set (nodes (view H h))")
    case True
    then show ?thesis by (auto simp: AddWeightedNodeAt_def AddWeightedNode_def)
  next
    case False
    then have "rel_option (\<lambda>(H', r) v. r = length (objects H) \<and> sim H r H' v)
           (AddWeightedNodeAt grow H h node weight) (AddWeightedNode (view H h) node weight)"
      by (intro AddWeightedNodeAt_sim) auto
    then show ?thesis by (simp add: option.rel_sel)
  qed
  show "RemoveNodeAt grow H h node = None \<longleftrightarrow> RemoveNode (view H h) node = None"
    using RemoveNodeAt_sim[of H grow h node] by (simp add: option.rel_sel)
qed

subsection \<open>Weights that do not overflow\<close>

lemma fold_plus_sum_list:
  "fold (\<lambda>x t. t + f x) xs (a :: 'a :: comm_monoid_add) = a + sum_list (map f xs)"
  by (induction xs arbitrary: a) (simp_all add: add.assoc)

lemma sint_sum_list:
  fixes f :: "'a \<Rightarrow> goint"
  assumes "\<forall>x \<in> set xs. 0 < sint (f x)" and "(\<Sum>x\<leftarrow>xs. sint (f x)) < 2 ^ 63"
  shows "sint (sum_list (map f xs)) = (\<Sum>x\<leftarrow>xs. sint (f x))"
  using assms
proof (induction xs)
  case Nil
  then show ?case by simp
next
  case (Cons x xs)
  have pos: "0 \<le> (\<Sum>y\<leftarrow>xs. sint (f y))"
    using Cons.prems(1) by (intro sum_list_nonneg) auto
  have ih: "sint (sum_list (map f xs)) = (\<Sum>y\<leftarrow>xs. sint (f y))"
    using Cons.IH Cons.prems by simp
  have "sint (f x + sum_list (map f xs))
      = signed_take_bit (LENGTH(64) - 1) (sint (f x) + sint (sum_list (map f xs)))"
    by (rule sint_word_ariths)
  also have "\<dots> = sint (f x) + (\<Sum>y\<leftarrow>xs. sint (f y))"
    unfolding ih using Cons.prems pos by (intro signed_take_bit_int_eq_self) simp_all
  finally show ?case by simp
qed

lemma sint_product:
  fixes w :: goint
  assumes "0 \<le> sint w" and "40 * int n * sint w < 2 ^ 63"
  shows "sint (40 * of_nat n * w) = 40 * int n * sint w"
proof -
  define P where "P = 40 * int n * sint w"
  have P0: "0 \<le> P" using assms(1) by (simp add: P_def)
  have P1: "P < 2 ^ 63" using assms(2) by (simp only: P_def)
  have "40 * of_nat n * w = (word_of_int P :: goint)"
    by (simp add: P_def)
  then have "sint (40 * of_nat n * w) = signed_take_bit (LENGTH(64) - 1) P"
    by (simp only: sint_sbintrunc')
  also have "\<dots> = P"
    using P0 P1 by (intro signed_take_bit_int_eq_self) simp_all
  finally show ?thesis by (simp only: P_def)
qed

lemma factorOf_spec:
  assumes pos: "\<forall>n \<in> set ns. 0 < sint (weightOf ws n)"
    and bound: "40 * int (length ns) * (\<Sum>n\<leftarrow>ns. sint (weightOf ws n)) < 2 ^ 53"
    and same: "nodes h = ns" "weights h = ws"
    and node: "node \<in> set ns"
  shows "factorOf h (totalWeight h) node = specFactor ns ws node"
proof -
  define S where "S = (\<Sum>n\<leftarrow>ns. sint (weightOf ws n))"
  define c where "c = 40 * int (length ns)"
  have len: "1 \<le> int (length ns)" using node by (cases ns) auto
  then have c1: "1 \<le> c" by (simp add: c_def)
  have wS: "sint (weightOf ws node) \<le> S"
    unfolding S_def using pos node
    by (intro member_le_sum_list) (auto simp: less_imp_le)
  have w0: "0 < sint (weightOf ws node)" using pos node by simp
  have S0: "0 < S" using wS w0 by simp
  have b: "c * S < 2 ^ 53" using bound by (simp only: S_def c_def)
  have "1 * S \<le> c * S" using c1 S0 by (intro mult_right_mono) simp_all
  then have S63: "S < 2 ^ 63" using b by simp
  have tw: "sint (totalWeight h) = S"
    using sint_sum_list[of ns "weightOf ws"] pos S63
    by (simp add: totalWeight_def fold_plus_sum_list same S_def)
  have "c * sint (weightOf ws node) \<le> c * S"
    using wS c1 by (intro mult_left_mono) simp_all
  then have "c * sint (weightOf ws node) < 2 ^ 63" using b by simp
  then have p63: "40 * int (length ns) * sint (weightOf ws node) < 2 ^ 63"
    by (simp only: c_def)
  have w0': "0 \<le> sint (weightOf ws node)" using w0 by simp
  have pr: "sint (40 * of_nat (length ns) * weightOf ws node)
      = 40 * int (length ns) * sint (weightOf ws node)"
    using w0' p63 by (rule sint_product)
  show ?thesis
    by (simp only: factorOf_def floorQuot_def same tw pr specFactor_def S_def)
qed

subsection \<open>The order of the nodes\<close>






subsection \<open>The example rings\<close>

lemma headKey_vals: "headKey ''a'' = 1633771873" "headKey ''b'' = 1650614882" "headKey ''c'' = 1667457891"
  "headKey ''ab'' = 1633771873" "headKey ''d'' = 1684300900"
  by (simp_all add: headKey_def firstByte_def Let_def)

lemma concat_replicate_const: "concat (map (\<lambda>j. replicate m x) js) = replicate (length js * m) x"
  by (induction js) (simp_all add: replicate_add)

lemma map_of_replicate: "map_of (replicate (Suc n) (k, v)) = [k \<mapsto> v]"
  by (induction n) (auto simp: fun_eq_iff)

lemma map_of_replicate_pos: "0 < n \<Longrightarrow> map_of (replicate n (k, v)) = [k \<mapsto> v]"
  using map_of_replicate [of "n - 1" k v] by simp

lemma sort_replicate: "sort (replicate n (x :: 'a :: linorder)) = replicate n x"
  by (simp add: sorted_sort_id sorted_replicate)

lemma headLike_headDigest: "headLike headDigest"
  by (simp add: headLike_def headDigest_def cap_def)

lemma headLike_cutDigest: "headLike cutDigest"
  by (auto simp: headLike_def cutDigest_def cap_def nth_append)

lemma keyAt_headLike:
  assumes "headLike d" "i < 3"
  shows "keyAt (d s) i = headKey s"
proof -
  define arr where "arr = elems (d s) @ spare (d s)"
  have l: "12 \<le> length arr" using assms(1) by (simp add: headLike_def cap_def arr_def)
  have n: "drop (i * 4) arr ! m = firstByte s" if m: "m < 4" for m
  proof -
    have "i * 4 + m < 12" using assms(2) m by simp
    then have "arr ! (i * 4 + m) = firstByte s" using assms(1) by (simp add: headLike_def arr_def)
    then show ?thesis using m l assms(2) by simp
  qed
  have "keyAt (d s) i =
      (let c = take 4 (drop (i * 4) arr)
       in push_bit 24 (ucast (c ! 3)) OR push_bit 16 (ucast (c ! 2))
          OR push_bit 8 (ucast (c ! 1)) OR ucast (c ! 0))"
    by (simp add: keyAt_def arr_def)
  then show ?thesis using n[of 0] n[of 1] n[of 2] n[of 3] by (simp add: Let_def headKey_def)
qed

lemma firstByte_nodeKey: "node \<noteq> [] \<Longrightarrow> firstByte (node @ rest) = firstByte node"
  by (cases node) (simp_all add: firstByte_def)

lemma headKey_nodeKey: "node \<noteq> [] \<Longrightarrow> headKey (node @ rest) = headKey node"
  by (simp add: headKey_def firstByte_nodeKey)

lemma nodePts_headLike:
  assumes "headLike (hashProvider h)" "node \<noteq> []"
  shows "nodePts h tw node = replicate (nat (factorOf h tw node) * 3) (headKey node, node)"
proof -
  have "groupPts (hashProvider h) node = (\<lambda>j. replicate 3 (headKey node, node))"
    using assms by (simp add: fun_eq_iff groupPts_def keyAt_headLike headKey_nodeKey numeral_3_eq_3)
  then show ?thesis by (simp add: nodePts_def concat_replicate_const)
qed

lemma digestsOk_headLike: "headLike (hashProvider h) \<Longrightarrow> digestsOk h"
  by (simp add: digestsOk_def headLike_def)

lemma build_headLike:
  assumes "headLike d" "\<forall>node \<in> set ns. node \<noteq> []"
  shows "build d ns ws =
     Some \<lparr>ring = map_of (rev (concat (map (\<lambda>node.
               replicate (nat (factorOf (emptyRing d ns ws) (totalWeight (emptyRing d ns ws)) node) * 3)
                 (headKey node, node)) ns))),
           hashProvider = d,
           sortedKeys = sort (map fst (concat (map (\<lambda>node.
               replicate (nat (factorOf (emptyRing d ns ws) (totalWeight (emptyRing d ns ws)) node) * 3)
                 (headKey node, node)) ns))),
           nodes = ns, weights = ws\<rparr>"
proof -
  let ?h = "emptyRing d ns ws"
  have "allPts ?h = concat (map (\<lambda>node.
      replicate (nat (factorOf ?h (totalWeight ?h) node) * 3) (headKey node, node)) ns)"
    using assms by (simp add: allPts_def emptyRing_sel nodePts_headLike cong: map_cong)
  then show ?thesis using assms(1)
    by (simp add: build_eq digestsOk_headLike emptyRing_sel)
qed

lemma factor_AC:
  "factorOf (emptyRing d [''a'', ''c''] Map.empty) (totalWeight (emptyRing d [''a'', ''c''] Map.empty)) ''a'' = 40"
  "factorOf (emptyRing d [''a'', ''c''] Map.empty) (totalWeight (emptyRing d [''a'', ''c''] Map.empty)) ''c'' = 40"
  by (simp_all add: factorOf_def totalWeight_def emptyRing_sel weightOf_def floorQuot_def)

lemma build_ringAC: "build headDigest [''a'', ''c''] Map.empty = Some ringAC"
  by (simp add: build_headLike headLike_headDigest factor_AC headKey_vals ringAC_def
      sorted_sort_id sorted_append map_of_replicate_pos map_add_def fun_eq_iff)

lemma produced_ringAC: "produced ringAC"
  using build_ringAC by (auto intro: produced.byNew [of headDigest "[''a'', ''c'']" "Some headDigest"] simp: New_def provider_def)

lemma GenKey_headDigest: "hashProvider h = headDigest \<Longrightarrow> GenKey h key = Some (headKey key)"
  using GenKey_Some [of h key] keyAt_headLike [OF headLike_headDigest, of 0 key]
  by (simp add: len_def headDigest_def)

lemma GetNodePos_ringAC_b: "GetNodePos ringAC ''b'' = Some (120, True)"
proof -
  have gk: "GenKey ringAC ''b'' = Some 1650614882"
    using GenKey_headDigest [of ringAC "''b''"] by (simp add: ringAC_def headKey_vals)
  have ne: "ring ringAC \<noteq> Map.empty" by (simp add: ringAC_def)
  show ?thesis
    by (simp add: GetNodePos_def gk ne Let_def) (simp add: ringAC_def Search_def search.simps nth_append)
qed

lemma firstSeen_replicate: "firstSeen (replicate (Suc n) x @ ys) = x # removeAll x (firstSeen ys)"
  by (induction n) simp_all

lemma firstSeen_replicate_pos:
  "0 < n \<Longrightarrow> firstSeen (replicate n x @ ys) = x # removeAll x (firstSeen ys)"
  using firstSeen_replicate [of "n - 1" x ys] by simp

lemma firstSeen_replicate_only: "0 < n \<Longrightarrow> firstSeen (replicate n x) = [x]"
  using firstSeen_replicate_pos [of n x "[]"] by simp


lemma factor_weightsAC:
  "factorOf (emptyRing d [''a'', ''c''] weightsAC) (totalWeight (emptyRing d [''a'', ''c''] weightsAC)) ''a'' = 0"
  "factorOf (emptyRing d [''a'', ''c''] weightsAC) (totalWeight (emptyRing d [''a'', ''c''] weightsAC)) ''c'' = 79"
  by (simp_all add: factorOf_def totalWeight_def emptyRing_sel weightOf_def floorQuot_def weightsAC_def)

lemma build_ringC: "build headDigest [''a'', ''c''] weightsAC = Some ringC"
  by (simp add: build_headLike headLike_headDigest factor_weightsAC headKey_vals ringC_def
      sort_replicate map_of_replicate_pos)




lemma build_ringOnlyC: "build headDigest [''c''] Map.empty = Some ringOnlyC"
proof -
  have "factorOf (emptyRing headDigest [''c''] Map.empty)
      (totalWeight (emptyRing headDigest [''c''] Map.empty)) ''c'' = 40"
    by (simp add: factorOf_def totalWeight_def emptyRing_sel weightOf_def floorQuot_def)
  then show ?thesis
    by (simp add: build_headLike headLike_headDigest headKey_vals ringOnlyC_def
        sort_replicate map_of_replicate_pos)
qed

lemma build_ringCD: "build headDigest [''c'', ''d''] [''d'' \<mapsto> 1] = Some ringCD"
proof -
  let ?h = "emptyRing headDigest [''c'', ''d''] [''d'' \<mapsto> 1]"
  have "factorOf ?h (totalWeight ?h) ''c'' = 40" "factorOf ?h (totalWeight ?h) ''d'' = 40"
    by (simp_all add: factorOf_def totalWeight_def emptyRing_sel weightOf_def floorQuot_def)
  then show ?thesis
    by (simp add: build_headLike headLike_headDigest headKey_vals ringCD_def
        sorted_sort_id sorted_append map_of_replicate_pos map_add_def fun_eq_iff)
qed

lemma factor_single:
  "factorOf (emptyRing d [node] Map.empty) (totalWeight (emptyRing d [node] Map.empty)) node = 40"
  by (simp add: factorOf_def totalWeight_def emptyRing_sel weightOf_def floorQuot_def)

lemma build_ringCut: "build cutDigest [''a''] Map.empty = Some ringCut"
  by (simp add: build_headLike headLike_cutDigest factor_single headKey_vals ringCut_def
      sort_replicate map_of_replicate_pos)







lemma view_heapAC: "view heapAC 0 = ringAC"
  by (simp add: view_def heapAC_def sliceVal_def ringAC_def)

lemma wfHeap_heapAC: "wfHeap heapAC"
  by (simp add: wfHeap_def heapAC_def)

lemma RemoveNode_ringAC: "RemoveNode ringAC ''a'' = Some ringOnlyC"
  using build_ringOnlyC by (simp add: RemoveNode_def) (simp add: ringAC_def)

lemma AddWeightedNode_ringOnlyC: "AddWeightedNode ringOnlyC ''d'' 1 = Some ringCD"
  using build_ringCD by (simp add: AddWeightedNode_def) (simp add: ringOnlyC_def)

section \<open>Claims\<close>







text \<open>
  C3. For every produced ring and every key whose digest has the four bytes \<^verbatim>\<open>GenKey\<close>
  decodes (any digest of the 12 bytes the specification asks for has them):
  \<^verbatim>\<open>GetNodePos\<close> returns \<open>found = False\<close> exactly when the ring has no points. Otherwise it returns \<open>found = True\<close>, and the position is the index of the
  first entry of \<^verbatim>\<open>sortedKeys\<close> strictly greater than the key's \<^verbatim>\<open>GenKey\<close>, or 0
  when no entry is strictly greater.
\<close>

theorem GetNodePos_locates:
  assumes "produced h" and "4 \<le> len (hashProvider h key)"
  shows "\<exists>pos found. GetNodePos h key = Some (pos, found)
      \<and> (found \<longleftrightarrow> ring h \<noteq> Map.empty)
      \<and> (found \<longrightarrow> (\<exists>k. GenKey h key = Some k
            \<and> (pos < length (sortedKeys h) \<and> k < sortedKeys h ! pos
                  \<and> (\<forall>i < pos. sortedKeys h ! i \<le> k)
                \<or> pos = 0 \<and> (\<forall>x \<in> set (sortedKeys h). x \<le> k))))"
proof (cases "ring h = Map.empty")
  case True
  then have "GetNodePos h key = Some (0, False)" by (simp add: GetNodePos_def)
  then show ?thesis using True by blast
next
  case False
  define k where "k = keyAt (hashProvider h key) 0"
  define p where "p = Search (length (sortedKeys h)) (\<lambda>i. sortedKeys h ! i > k)"
  have gk: "GenKey h key = Some k" using assms(2) by (simp add: GenKey_Some k_def)
  have srt: "sorted (sortedKeys h)" using produced_inv[OF assms(1)] by (simp add: ringInv_def)
  note S = Search_sorted[OF srt, of k, folded p_def]
  show ?thesis
  proof (cases "p = length (sortedKeys h)")
    case True
    have "GetNodePos h key = Some (0, True)"
      using False gk True by (simp add: GetNodePos_def p_def Let_def)
    moreover have "\<forall>x \<in> set (sortedKeys h). x \<le> k"
      using S(2) True by (auto simp: in_set_conv_nth)
    ultimately show ?thesis using False gk by auto
  next
    case np: False
    have "GetNodePos h key = Some (p, True)"
      using False gk np by (simp add: GetNodePos_def p_def Let_def)
    moreover have "p < length (sortedKeys h)" using S(1) np by simp
    moreover have "k < sortedKeys h ! p" using S(3) \<open>p < length (sortedKeys h)\<close> by simp
    ultimately show ?thesis using False gk S(2) by auto
  qed
qed

theorem GetNodePos_locates_witness:
  "produced ringAC \<and> 4 \<le> len (hashProvider ringAC ''b'')
   \<and> GetNodePos ringAC ''b'' = Some (120, True)
   \<and> (\<exists>pos found. GetNodePos ringAC ''b'' = Some (pos, found)
      \<and> (found \<longleftrightarrow> ring ringAC \<noteq> Map.empty)
      \<and> (found \<longrightarrow> (\<exists>k. GenKey ringAC ''b'' = Some k
            \<and> (pos < length (sortedKeys ringAC) \<and> k < sortedKeys ringAC ! pos
                  \<and> (\<forall>i < pos. sortedKeys ringAC ! i \<le> k)
                \<or> pos = 0 \<and> (\<forall>x \<in> set (sortedKeys ringAC). x \<le> k)))))"
proof -
  have l: "4 \<le> len (hashProvider ringAC ''b'')"
    by (simp add: ringAC_def headDigest_def len_def)
  show ?thesis
    using GetNodePos_locates [OF produced_ringAC l] produced_ringAC l GetNodePos_ringAC_b
    by blast
qed

text \<open>
  C4, as amended. For every build from a node list and a weight mapping (weight 1 for a
  node absent from the mapping) in which every weight is positive and
  \<open>40 * |nodes| * totalWeight\<close> is below \<open>2^53\<close>: the loop body of each node appends
  exactly \<open>floor(40 * |nodes| * weight / totalWeight) * 3\<close> entries to \<^verbatim>\<open>sortedKeys\<close>,
  and \<^verbatim>\<open>sortedKeys\<close> ends with the sum of these numbers of entries.
\<close>

theorem points_per_node:
  assumes "build hp ns ws = Some r"
    and "\<forall>n \<in> set ns. 0 < sint (weightOf ws n)"
    and "40 * int (length ns) * (\<Sum>n\<leftarrow>ns. sint (weightOf ws n)) < 2 ^ 53"
  shows "length (sortedKeys r) = (\<Sum>node\<leftarrow>ns. nat (specFactor ns ws node) * 3)
       \<and> (\<forall>node \<in> set ns. \<forall>s s'.
            hashProvider s = hp \<and> nodes s = ns \<and> weights s = ws
            \<and> nodeStep (totalWeight s) node s = Some s'
            \<longrightarrow> (\<exists>keys. sortedKeys s' = sortedKeys s @ keys
                  \<and> length keys = nat (specFactor ns ws node) * 3))"
proof
  let ?h = "emptyRing hp ns ws"
  have "sortedKeys r = sort (map fst (allPts ?h))"
    using assms(1) by (auto simp: build_eq split: if_splits)
  then have "length (sortedKeys r) = (\<Sum>node\<leftarrow>ns. nat (factorOf ?h (totalWeight ?h) node) * 3)"
    by (simp add: length_allPts emptyRing_sel)
  also have "\<dots> = (\<Sum>node\<leftarrow>ns. nat (specFactor ns ws node) * 3)"
    using factorOf_spec[OF assms(2,3), of ?h]
    by (intro arg_cong[where f = sum_list] map_cong) (simp_all add: emptyRing_sel)
  finally show "length (sortedKeys r) = (\<Sum>node\<leftarrow>ns. nat (specFactor ns ws node) * 3)" .
next
  show "\<forall>node \<in> set ns. \<forall>s s'.
            hashProvider s = hp \<and> nodes s = ns \<and> weights s = ws
            \<and> nodeStep (totalWeight s) node s = Some s'
            \<longrightarrow> (\<exists>keys. sortedKeys s' = sortedKeys s @ keys
                  \<and> length keys = nat (specFactor ns ws node) * 3)"
  proof (intro ballI allI impI)
    fix node s s'
    assume node: "node \<in> set ns"
      and s: "hashProvider s = hp \<and> nodes s = ns \<and> weights s = ws
              \<and> nodeStep (totalWeight s) node s = Some s'"
    have f: "factorOf s (totalWeight s) node = specFactor ns ws node"
      using factorOf_spec[OF assms(2,3), of s node] s node by simp
    have "s' = addPts (nodePts s (totalWeight s) node) s"
      using s by (auto simp: nodeStep_eq split: if_splits)
    then have "sortedKeys s' = sortedKeys s @ map fst (nodePts s (totalWeight s) node)"
      by (simp add: addPts_def)
    moreover have "length (map fst (nodePts s (totalWeight s) node)) = nat (specFactor ns ws node) * 3"
      by (simp add: length_nodePts f)
    ultimately show "\<exists>keys. sortedKeys s' = sortedKeys s @ keys
        \<and> length keys = nat (specFactor ns ws node) * 3"
      by blast
  qed
qed

theorem points_per_node_witness:
  "build headDigest [''a'', ''c''] weightsAC = Some ringC
   \<and> 0 < sint (weightOf weightsAC ''a'') \<and> 0 < sint (weightOf weightsAC ''c'')
   \<and> 40 * int (length [''a'', ''c'']) * (\<Sum>n\<leftarrow>[''a'', ''c'']. sint (weightOf weightsAC n)) = 80080
   \<and> specFactor [''a'', ''c''] weightsAC ''a'' = 0
   \<and> specFactor [''a'', ''c''] weightsAC ''c'' = 79
   \<and> length (sortedKeys ringC) = 0 * 3 + 79 * 3"
proof -
  have w: "weightOf weightsAC ''a'' = 1" "weightOf weightsAC ''c'' = 1000"
    by (simp_all add: weightOf_def weightsAC_def)
  have p: "\<forall>n \<in> set [''a'', ''c'']. 0 < sint (weightOf weightsAC n)"
    by (simp add: w)
  have b: "40 * int (length [''a'', ''c'']) * (\<Sum>n\<leftarrow>[''a'', ''c'']. sint (weightOf weightsAC n)) < 2 ^ 53"
    by (simp add: w)
  have f: "specFactor [''a'', ''c''] weightsAC ''a'' = 0"
    "specFactor [''a'', ''c''] weightsAC ''c'' = 79"
    by (simp_all add: specFactor_def w)
  show ?thesis
    using points_per_node [OF build_ringC p b] build_ringC
    by (simp add: f w)
qed

text \<open>
  C4 as stated fails where the product overflows. With the single node \<open>a\<close> of weight
  \<open>2^62\<close> the claim gives \<open>floor(40 * 1 * 2^62 / 2^62) * 3 = 120\<close> entries. In the
  64-bit \<^verbatim>\<open>int\<close> of the code \<^verbatim>\<open>40*len(h.nodes)*weight\<close> wraps around to 0, the factor
  is 0, and the ring is built without any entry.
\<close>

theorem points_overflow:
  "rangeOrder weightsBig [''a'']
   \<and> 0 < sint (weightOf weightsBig ''a'')
   \<and> nat (specFactor [''a''] weightsBig ''a'') * 3 = 120
   \<and> NewWithWeights headDigest [''a''] weightsBig (Some headDigest) = Some ringBig
   \<and> sortedKeys ringBig = []"
proof -
  let ?h = "emptyRing headDigest [''a''] weightsBig"
  have w: "weightOf weightsBig ''a'' = 4611686018427387904"
    by (simp add: weightOf_def weightsBig_def)
  have f: "factorOf ?h (totalWeight ?h) ''a'' = 0"
    by (simp add: factorOf_def totalWeight_def emptyRing_sel w floorQuot_def)
  have "build headDigest [''a''] weightsBig = Some ringBig"
    by (simp add: build_headLike headLike_headDigest f ringBig_def)
  then show ?thesis
    by (simp add: NewWithWeights_def provider_def rangeOrder_def specFactor_def w)
      (simp add: weightsBig_def ringBig_def)
qed

text \<open>
  C5. For every produced ring with at least one point and every key whose digest has the
  four bytes \<^verbatim>\<open>GenKey\<close> decodes, \<^verbatim>\<open>GetNodes\<close> with size 1 returns the one-element
  sequence holding the node \<^verbatim>\<open>GetNode\<close> returns, with \<open>complete = True\<close>; on a ring
  without points both report failure.
\<close>

theorem GetNodes_one_is_GetNode:
  assumes "produced h" and "4 \<le> len (hashProvider h key)"
  shows "(ring h \<noteq> Map.empty \<longrightarrow>
            (\<exists>node. GetNode h key = Some (node, True) \<and> GetNodes h key 1 = Some ([node], True)))
       \<and> (ring h = Map.empty \<longrightarrow>
            GetNode h key = Some ([], False) \<and> GetNodes h key 1 = Some ([], False))"
proof -
  have inv: "ringInv h" using assms(1) by (rule produced_inv)
  obtain pos where p: "GetNodePos h key = Some (pos, ring h \<noteq> Map.empty)"
    and lt: "ring h \<noteq> Map.empty \<longrightarrow> pos < length (sortedKeys h)"
    using GetNodePos_total[OF inv assms(2)] by blast
  show ?thesis
  proof (cases "ring h = Map.empty")
    case True
    then show ?thesis using p by (simp add: GetNode_def GetNodes_def)
  next
    case False
    have pl: "pos < length (sortedKeys h)" using lt False by simp
    have nn: "nodes h \<noteq> []" using ringInv_nonempty(2)[OF inv False] .
    then have sz: "\<not> sint (1 :: goint) > int (length (nodes h))"
      by (cases "nodes h") simp_all
    have dr: "drop pos (sortedKeys h) = sortedKeys h ! pos # drop (Suc pos) (sortedKeys h)"
      using pl by (simp add: Cons_nth_drop_Suc)
    have gn: "GetNode h key = Some (lookupStr (ring h) (sortedKeys h ! pos), True)"
      using p False pl by (simp add: GetNode_def)
    have "GetNodes h key 1 = Some ([lookupStr (ring h) (sortedKeys h ! pos)], True)"
      using p False pl sz by (simp add: GetNodes_def dr Let_def)
    then show ?thesis using gn False by simp
  qed
qed

theorem GetNodes_one_is_GetNode_witness:
  "produced ringAC \<and> 4 \<le> len (hashProvider ringAC ''b'') \<and> ring ringAC \<noteq> Map.empty
   \<and> GetNode ringAC ''b'' = Some (''c'', True) \<and> GetNodes ringAC ''b'' 1 = Some ([''c''], True)"
proof -
  have l: "4 \<le> len (hashProvider ringAC ''b'')"
    by (simp add: ringAC_def headDigest_def len_def)
  have ne: "ring ringAC \<noteq> Map.empty" by (simp add: ringAC_def)
  have g: "GetNode ringAC ''b'' = Some (''c'', True)"
    by (simp add: GetNode_def GetNodePos_ringAC_b) (simp add: ringAC_def nth_append lookupStr_def)
  show ?thesis
    using GetNodes_one_is_GetNode [OF produced_ringAC l] produced_ringAC l ne g
    by simp
qed

text \<open>
  C6. \<^verbatim>\<open>AddWeightedNode\<close> returns the ring it was called on, unchanged, whenever the
  weight is \<open>\<le> 0\<close> or the node is already in \<^verbatim>\<open>nodes\<close>: it returns the pointer it
  received and leaves the heap as it was. \<^verbatim>\<open>AddNode\<close> is \<^verbatim>\<open>AddWeightedNode\<close> with
  weight 1.
\<close>

theorem AddWeightedNode_noop:
  assumes "sint weight \<le> 0 \<or> node \<in> set (nodes (view H h))"
  shows "AddWeightedNodeAt grow H h node weight = Some (H, h)
       \<and> AddWeightedNode (view H h) node weight = Some (view H h)
       \<and> AddNodeAt grow H h node = AddWeightedNodeAt grow H h node 1
       \<and> AddNode r node = AddWeightedNode r node 1"
  using assms by (auto simp: AddWeightedNodeAt_def AddWeightedNode_def AddNode_def AddNodeAt_def)

theorem AddWeightedNode_noop_witness:
  "(sint (0 :: goint) \<le> 0 \<or> ''d'' \<in> set (nodes (view heapAC 0)))
   \<and> AddWeightedNodeAt doubling heapAC 0 ''d'' 0 = Some (heapAC, 0)
   \<and> (sint (5 :: goint) \<le> 0 \<or> ''c'' \<in> set (nodes (view heapAC 0)))
   \<and> AddWeightedNodeAt doubling heapAC 0 ''c'' 5 = Some (heapAC, 0)
   \<and> AddWeightedNode ringAC ''c'' 5 = Some ringAC
   \<and> AddNodeAt doubling heapAC 0 ''c'' = Some (heapAC, 0)
   \<and> AddNode ringAC ''c'' = Some ringAC"
proof -
  have a: "sint (0 :: goint) \<le> 0 \<or> ''d'' \<in> set (nodes (view heapAC 0))" by simp
  have b: "sint (5 :: goint) \<le> 0 \<or> ''c'' \<in> set (nodes (view heapAC 0))"
    by (simp add: view_heapAC) (simp add: ringAC_def)
  have c: "sint (1 :: goint) \<le> 0 \<or> ''c'' \<in> set (nodes (view heapAC 0))"
    by (simp add: view_heapAC) (simp add: ringAC_def)
  show ?thesis
    using AddWeightedNode_noop [OF a, where grow = doubling and r = ringAC]
      AddWeightedNode_noop [OF b, where grow = doubling and r = ringAC]
      AddWeightedNode_noop [OF c, where grow = doubling and r = ringAC] a b
    by (simp add: view_heapAC)
qed

text \<open>
  C7, as amended. \<^verbatim>\<open>AddWeightedNode\<close> and \<^verbatim>\<open>RemoveNode\<close> write to no map, array or
  object that existed before the call: the receiver and every other ring reads as it did,
  with all its fields. \<^verbatim>\<open>RemoveNode\<close> always returns the pointer of an object the call
  allocated and built, which reads as the ring computed from the receiver; so does
  \<^verbatim>\<open>AddWeightedNode\<close> when the weight is positive and the node is not in \<^verbatim>\<open>nodes\<close>.
  When the weight is \<open>\<le> 0\<close> or the node is already in \<^verbatim>\<open>nodes\<close>, \<^verbatim>\<open>AddWeightedNode\<close>
  builds nothing: it returns the receiver itself and leaves the heap as it was.
\<close>

theorem mutators_frame:
  assumes "wfHeap H" and "h < length (objects H)"
  shows "(AddWeightedNodeAt grow H h node weight = Some (H', r) \<longrightarrow>
            keeps H H' \<and> (\<forall>q < length (objects H). view H' q = view H q)
            \<and> wfHeap H' \<and> r < length (objects H')
            \<and> AddWeightedNode (view H h) node weight = Some (view H' r)
            \<and> (if sint weight \<le> 0 \<or> node \<in> set (nodes (view H h)) then r = h \<and> H' = H
                else r = length (objects H)))
       \<and> (RemoveNodeAt grow H h node = Some (H', r) \<longrightarrow>
            keeps H H' \<and> (\<forall>q < length (objects H). view H' q = view H q)
            \<and> wfHeap H' \<and> r < length (objects H')
            \<and> RemoveNode (view H h) node = Some (view H' r)
            \<and> r = length (objects H))"
proof (intro conjI impI)
  assume a: "AddWeightedNodeAt grow H h node weight = Some (H', r)"
  have "keeps H H' \<and> wfHeap H' \<and> r < length (objects H')
      \<and> AddWeightedNode (view H h) node weight = Some (view H' r)
      \<and> (if sint weight \<le> 0 \<or> node \<in> set (nodes (view H h)) then r = h \<and> H' = H
          else r = length (objects H))"
  proof (cases "sint weight \<le> 0 \<or> node \<in> set (nodes (view H h))")
    case True
    then have "H' = H" "r = h" using a by (auto simp: AddWeightedNodeAt_def split: if_splits)
    then show ?thesis using True assms by (auto simp: keeps_refl AddWeightedNode_def)
  next
    case False
    then have "rel_option (\<lambda>(H', r) v. r = length (objects H) \<and> sim H r H' v)
           (AddWeightedNodeAt grow H h node weight) (AddWeightedNode (view H h) node weight)"
      by (intro AddWeightedNodeAt_sim) auto
    then obtain v where v: "AddWeightedNode (view H h) node weight = Some v"
      and r: "r = length (objects H)" and s: "sim H r H' v"
      using a by (cases "AddWeightedNode (view H h) node weight") auto
    have b: "building H r H'" and vw: "view H' r = v" using s by (simp_all add: sim_def)
    have "wfHeap H'" using assms(1) b by (rule building_wfHeap)
    moreover have "keeps H H'" "r < length (objects H')" using b by (simp_all add: building_def)
    ultimately show ?thesis using False v r vw by simp
  qed
  then show "keeps H H'" "wfHeap H'" "r < length (objects H')"
    "AddWeightedNode (view H h) node weight = Some (view H' r)"
    "if sint weight \<le> 0 \<or> node \<in> set (nodes (view H h)) then r = h \<and> H' = H
     else r = length (objects H)"
    by simp_all
  then show "\<forall>q < length (objects H). view H' q = view H q"
    using keeps_view[OF _ assms(1)] by blast
next
  assume a: "RemoveNodeAt grow H h node = Some (H', r)"
  obtain v where v: "RemoveNode (view H h) node = Some v"
    and r: "r = length (objects H)" and s: "sim H r H' v"
    using RemoveNodeAt_sim[of H grow h node] a by (cases "RemoveNode (view H h) node") auto
  have b: "building H r H'" and vw: "view H' r = v" using s by (simp_all add: sim_def)
  show "wfHeap H'" using assms(1) b by (rule building_wfHeap)
  show "keeps H H'" "r < length (objects H')" using b by (simp_all add: building_def)
  show "RemoveNode (view H h) node = Some (view H' r)" "r = length (objects H)"
    using v r vw by simp_all
  show "\<forall>q < length (objects H). view H' q = view H q"
    using keeps_view[OF \<open>keeps H H'\<close> assms(1)] by blast
qed

theorem mutators_frame_witness:
  "wfHeap heapAC \<and> (0 :: nat) < length (objects heapAC) \<and> view heapAC 0 = ringAC
   \<and> (\<exists>H'. RemoveNodeAt doubling heapAC 0 ''a'' = Some (H', 1)
         \<and> keeps heapAC H' \<and> view H' 0 = ringAC \<and> view H' 1 = ringOnlyC
         \<and> (\<exists>H''. AddWeightedNodeAt doubling H' 1 ''d'' 1 = Some (H'', 2)
               \<and> keeps H' H'' \<and> view H'' 0 = ringAC \<and> view H'' 1 = ringOnlyC
               \<and> view H'' 2 = ringCD))"
proof -
  have l: "(0 :: nat) < length (objects heapAC)" by (simp add: heapAC_def)
  have "RemoveNodeAt doubling heapAC 0 ''a'' \<noteq> None"
    using mutators_return(2)[of doubling heapAC 0 "''a''"] RemoveNode_ringAC
    by (simp add: view_heapAC)
  then obtain H' r where rm: "RemoveNodeAt doubling heapAC 0 ''a'' = Some (H', r)" by auto
  have F: "keeps heapAC H' \<and> (\<forall>q < length (objects heapAC). view H' q = view heapAC q)
      \<and> wfHeap H' \<and> r < length (objects H')
      \<and> RemoveNode (view heapAC 0) ''a'' = Some (view H' r) \<and> r = length (objects heapAC)"
    using mutators_frame [OF wfHeap_heapAC l, where grow = doubling and node = "''a''"
        and H' = H' and r = r] rm by blast
  have r: "r = 1" using F by (simp add: heapAC_def)
  have k: "keeps heapAC H'" and w: "wfHeap H'" and l1: "1 < length (objects H')"
    using F r by simp_all
  have v0: "view H' 0 = ringAC" using F l by (simp add: view_heapAC)
  have "RemoveNode ringAC ''a'' = Some (view H' r)" using F by (simp add: view_heapAC)
  then have "view H' r = ringOnlyC" using RemoveNode_ringAC by simp
  then have v1: "view H' 1 = ringOnlyC" using r by simp
  have "AddWeightedNodeAt doubling H' 1 ''d'' 1 \<noteq> None"
    using mutators_return(1)[of doubling H' 1 "''d''" 1] AddWeightedNode_ringOnlyC v1
    by simp
  then obtain H'' r' where ad: "AddWeightedNodeAt doubling H' 1 ''d'' 1 = Some (H'', r')" by auto
  have G: "keeps H' H'' \<and> (\<forall>q < length (objects H'). view H'' q = view H' q)
      \<and> AddWeightedNode (view H' 1) ''d'' 1 = Some (view H'' r')
      \<and> (if sint (1 :: goint) \<le> 0 \<or> ''d'' \<in> set (nodes (view H' 1)) then r' = 1 \<and> H'' = H'
          else r' = length (objects H'))"
    using mutators_frame [OF w l1, where grow = doubling and node = "''d''" and weight = 1
        and H' = H'' and r = r'] ad by blast
  have len: "length (objects H') = 2"
  proof -
    have "RemoveNodeAt doubling heapAC 0 ''a'' = Some (H', 1)" using rm r by simp
    then have "rel_option (\<lambda>(H', r) v. r = length (objects heapAC) \<and> sim heapAC r H' v)
        (Some (H', 1)) (RemoveNode (view heapAC 0) ''a'')"
      using RemoveNodeAt_sim[of heapAC doubling 0 "''a''"] by simp
    then have "building heapAC 1 H'"
      by (cases "RemoveNode (view heapAC 0) ''a''") (auto simp: sim_def)
    then show ?thesis by (simp add: building_def)
  qed
  have "''d'' \<notin> set (nodes (view H' 1))" using v1 by (simp add: ringOnlyC_def)
  then have r': "r' = 2" using G len by simp
  have w0: "view H'' 0 = ringAC" and w1: "view H'' 1 = ringOnlyC"
    using G len v0 v1 by simp_all
  have "AddWeightedNode ringOnlyC ''d'' 1 = Some (view H'' r')" using G v1 by simp
  then have "view H'' r' = ringCD" using AddWeightedNode_ringOnlyC by simp
  then have w2: "view H'' 2 = ringCD" using r' by simp
  have k': "keeps H' H''" using G by simp
  show ?thesis
    using wfHeap_heapAC l view_heapAC rm r k v0 v1 ad r' k' w0 w1 w2 by blast
qed

text \<open>
  C7 as stated fails in its second half: the result is not always a freshly built ring.
  The heap \<open>heapAC\<close> holds one object, at pointer 0, the ring of the nodes \<open>a\<close> and \<open>c\<close>.
  Adding the node \<open>c\<close> again, with \<^verbatim>\<open>AddWeightedNode\<close> or with \<^verbatim>\<open>AddNode\<close>, or adding a
  new node \<open>d\<close> with weight 0, returns the pointer 0 of the receiver, and no object is
  allocated.
\<close>

theorem AddWeightedNode_returns_receiver:
  "(0 :: nat) < length (objects heapAC)
   \<and> ''c'' \<in> set (nodes (view heapAC 0))
   \<and> AddWeightedNodeAt doubling heapAC 0 ''c'' 5 = Some (heapAC, 0)
   \<and> AddNodeAt doubling heapAC 0 ''c'' = Some (heapAC, 0)
   \<and> ''d'' \<notin> set (nodes (view heapAC 0))
   \<and> AddWeightedNodeAt doubling heapAC 0 ''d'' 0 = Some (heapAC, 0)"
proof -
  have n: "nodes (view heapAC 0) = [''a'', ''c'']"
    by (simp add: view_heapAC) (simp add: ringAC_def)
  have l: "(0 :: nat) < length (objects heapAC)" by (simp add: heapAC_def)
  show ?thesis
    using l by (simp add: AddWeightedNodeAt_def AddNodeAt_def n)
qed

text \<open>
  C8, as amended. When every digest is at least 12 bytes long, each slice expression of
  \<^verbatim>\<open>generateCircle\<close> (the chunks at the offsets 0, 4 and 8) is in bounds and the
  construction does not panic. When every weight is positive and
  \<open>40 * |nodes| * totalWeight\<close> is below \<open>2^53\<close>, so that the digests computed for a node
  are those of its first \<open>floor(40 * |nodes| * weight / totalWeight)\<close> groups, the
  construction panics exactly when one of these digests has a capacity below 12: a digest
  shorter than 12 bytes in a backing array of at least 12 bytes is sliced beyond its
  length without a panic.
\<close>

theorem generateCircle_bounds:
  "((\<forall>s. 12 \<le> len (hashProvider h s)) \<longrightarrow> generateCircle h \<noteq> None)
   \<and> ((\<forall>n \<in> set (nodes h). 0 < sint (weightOf (weights h) n))
        \<and> 40 * int (length (nodes h)) * (\<Sum>n\<leftarrow>nodes h. sint (weightOf (weights h) n)) < 2 ^ 53
       \<longrightarrow> (generateCircle h = None \<longleftrightarrow>
             (\<exists>node \<in> set (nodes h). \<exists>j < nat (specFactor (nodes h) (weights h) node).
                cap (hashProvider h (node @ ''-'' @ itoa j)) < 12)))"
proof (intro conjI impI)
  assume a: "\<forall>s. 12 \<le> len (hashProvider h s)"
  have "digestsOk h"
    unfolding digestsOk_def
  proof (intro ballI allI impI)
    fix node j
    have "12 \<le> len (hashProvider h (node @ ''-'' @ itoa j))" using a by blast
    then show "12 \<le> cap (hashProvider h (node @ ''-'' @ itoa j))"
      using len_le_cap[of "hashProvider h (node @ ''-'' @ itoa j)"] by simp
  qed
  then show "generateCircle h \<noteq> None" by (simp add: generateCircle_eq)
next
  assume b: "(\<forall>n \<in> set (nodes h). 0 < sint (weightOf (weights h) n))
        \<and> 40 * int (length (nodes h)) * (\<Sum>n\<leftarrow>nodes h. sint (weightOf (weights h) n)) < 2 ^ 53"
  have f: "factorOf h (totalWeight h) node = specFactor (nodes h) (weights h) node"
    if "node \<in> set (nodes h)" for node
    using factorOf_spec[of "nodes h" "weights h" h node] b that by blast
  have "generateCircle h = None \<longleftrightarrow> \<not> digestsOk h"
    by (simp add: generateCircle_eq)
  also have "\<dots> \<longleftrightarrow> (\<exists>node \<in> set (nodes h). \<exists>j < nat (factorOf h (totalWeight h) node).
           cap (hashProvider h (node @ ''-'' @ itoa j)) < 12)"
    by (auto simp: digestsOk_def not_le)
  also have "\<dots> \<longleftrightarrow> (\<exists>node \<in> set (nodes h). \<exists>j < nat (specFactor (nodes h) (weights h) node).
           cap (hashProvider h (node @ ''-'' @ itoa j)) < 12)"
    using f by (intro bex_cong refl) simp
  finally show "generateCircle h = None \<longleftrightarrow>
        (\<exists>node \<in> set (nodes h). \<exists>j < nat (specFactor (nodes h) (weights h) node).
           cap (hashProvider h (node @ ''-'' @ itoa j)) < 12)" .
qed

theorem generateCircle_bounds_witness:
  "len (headDigest ''a-0'') = 16
   \<and> generateCircle (emptyRing headDigest [''a'', ''c''] Map.empty) = Some ringAC
   \<and> 0 < sint (weightOf Map.empty ''a'')
   \<and> 40 * int (length [''a'']) * (\<Sum>n\<leftarrow>[''a'']. sint (weightOf Map.empty n)) = 40
   \<and> specFactor [''a''] Map.empty ''a'' = 40
   \<and> cap (tinyDigest ''a-0'') = 8
   \<and> generateCircle (emptyRing tinyDigest [''a''] Map.empty) = None"
proof -
  let ?t = "emptyRing tinyDigest [''a''] Map.empty"
  have w: "weightOf Map.empty ''a'' = 1" by (simp add: weightOf_def)
  have sf: "specFactor [''a''] Map.empty ''a'' = 40" by (simp add: specFactor_def w)
  have p: "(\<forall>n \<in> set (nodes ?t). 0 < sint (weightOf (weights ?t) n))
      \<and> 40 * int (length (nodes ?t)) * (\<Sum>n\<leftarrow>nodes ?t. sint (weightOf (weights ?t) n)) < 2 ^ 53"
    by (simp add: emptyRing_sel w)
  have "\<exists>node \<in> set (nodes ?t). \<exists>j < nat (specFactor (nodes ?t) (weights ?t) node).
      cap (hashProvider ?t (node @ ''-'' @ itoa j)) < 12"
    by (simp add: emptyRing_sel sf tinyDigest_def cap_def) (rule exI[of _ 0], simp)
  then have "generateCircle ?t = None"
    using generateCircle_bounds [of ?t] p by blast
  then show ?thesis using build_ringAC
    by (simp add: build_def headDigest_def tinyDigest_def len_def cap_def w sf)
qed

text \<open>
  C8 as stated fails in its second half. \<open>cutDigest\<close> yields 10 bytes for every string,
  in a backing array of 16. The chunk at offset 8 is \<^verbatim>\<open>bKey[8:12]\<close>: its last two bytes
  lie beyond the length of the digest, the slice expression succeeds, and the ring is
  built.
\<close>

theorem short_digest_builds:
  "len (cutDigest ''a-0'') = 10
   \<and> slice_expr (cutDigest ''a-0'') 8 12 = Some \<lparr>elems = [97, 97, 97, 97], spare = [97, 97, 97, 97]\<rparr>
   \<and> New headDigest [''a''] (Some cutDigest) = Some ringCut"
  using build_ringCut
  by (simp add: New_def provider_def cutDigest_def len_def slice_expr_def cap_def firstByte_def
      numeral_eq_Suc)

text \<open>
  C9. For every ring a constructor (\<^verbatim>\<open>New\<close>, \<^verbatim>\<open>NewWithWeights\<close>) or a mutator
  (\<^verbatim>\<open>AddNode\<close>, \<^verbatim>\<open>AddWeightedNode\<close>, \<^verbatim>\<open>RemoveNode\<close>) returns, \<^verbatim>\<open>sortedKeys\<close> is
  sorted ascending and every key in \<^verbatim>\<open>sortedKeys\<close> has an entry in the map \<^verbatim>\<open>ring\<close>.
\<close>

theorem produced_sorted_keys:
  assumes "produced r"
  shows "sorted (sortedKeys r) \<and> (\<forall>key \<in> set (sortedKeys r). \<exists>node. ring r key = Some node)"
proof -
  have "ringInv r" using assms by (rule produced_inv)
  then have "sorted (sortedKeys r)" and "set (sortedKeys r) = dom (ring r)"
    by (simp_all add: ringInv_def)
  then show ?thesis by auto
qed

theorem produced_sorted_keys_witness:
  "New headDigest [''a'', ''c''] (Some headDigest) = Some ringAC \<and> produced ringAC
   \<and> sorted (sortedKeys ringAC) \<and> ring ringAC 1633771873 = Some ''a''
   \<and> ring ringAC 1667457891 = Some ''c'' \<and> set (sortedKeys ringAC) = {1633771873, 1667457891}"
proof -
  have "sorted (sortedKeys ringAC)"
    using produced_sorted_keys [OF produced_ringAC] by simp
  moreover have "set (sortedKeys ringAC) = {1633771873, 1667457891}"
    by (auto simp: ringAC_def)
  moreover have "ring ringAC 1633771873 = Some ''a''" "ring ringAC 1667457891 = Some ''c''"
    by (simp_all add: ringAC_def)
  ultimately show ?thesis using build_ringAC produced_ringAC
    by (simp add: New_def provider_def)
qed

text \<open>
  C10. For every produced ring with at least one point, every key whose digest has the
  four bytes \<^verbatim>\<open>GenKey\<close> decodes and every size \<open>\<le> 0\<close>, \<^verbatim>\<open>GetNodes\<close> does not
  return the empty refusal: it walks the whole circle from the key's position and
  returns every distinct node stored on it, each at its first occurrence along the walk,
  with \<open>complete = False\<close>.
\<close>

theorem GetNodes_nonpositive_size:
  assumes "produced h" and "ring h \<noteq> Map.empty" and "sint sz \<le> 0"
    and "4 \<le> len (hashProvider h key)"
  shows "\<exists>pos res. GetNodePos h key = Some (pos, True)
      \<and> res = firstSeen (map (lookupStr (ring h))
                 (drop pos (sortedKeys h) @ take pos (sortedKeys h)))
      \<and> GetNodes h key sz = Some (res, False)
      \<and> res \<noteq> [] \<and> set res = ran (ring h)"
proof -
  have inv: "ringInv h" using assms(1) by (rule produced_inv)
  obtain pos where p: "GetNodePos h key = Some (pos, True)"
    and pl: "pos < length (sortedKeys h)"
    using GetNodePos_total[OF inv assms(4)] assms(2) by auto
  define merged where "merged = drop pos (sortedKeys h) @ take pos (sortedKeys h)"
  define r where "r = collect (ring h) sz merged {} []"
  have mset: "set merged = dom (ring h)"
    using set_rotate_keys[of pos "sortedKeys h"] pl inv by (simp add: merged_def ringInv_def)
  have mne: "merged \<noteq> []" using pl by (simp add: merged_def)
  then obtain k ks where mk: "merged = k # ks" by (cases merged) auto
  have "r = collect (ring h) sz ks {lookupStr (ring h) k} [lookupStr (ring h) k]"
    using assms(3) by (simp add: r_def mk Let_def)
  then have "1 \<le> length r" using collect_length_ge[of "[lookupStr (ring h) k]" "ring h" sz ks] by simp
  then have ln: "int (length r) \<noteq> sint sz" using assms(3) by simp
  have full: "r = firstSeen (map (lookupStr (ring h)) merged)"
    using collect_full[of "{}" "[]" "ring h" sz merged] ln by (simp add: r_def)
  have "set r = ran (ring h)"
    by (simp add: full set_firstSeen mset lookupStr_image_dom)
  moreover have "r \<noteq> []" using \<open>1 \<le> length r\<close> by auto
  moreover have "GetNodes h key sz = Some (r, False)"
    using p pl assms(3) ln by (simp add: GetNodes_def Let_def r_def merged_def)
  ultimately show ?thesis using p full by (auto simp: merged_def)
qed

theorem GetNodes_nonpositive_size_witness:
  "produced ringAC \<and> ring ringAC \<noteq> Map.empty \<and> sint (0 :: goint) \<le> 0
   \<and> 4 \<le> len (hashProvider ringAC ''b'')
   \<and> GetNodePos ringAC ''b'' = Some (120, True)
   \<and> GetNodes ringAC ''b'' 0 = Some ([''c'', ''a''], False)"
proof -
  have l: "4 \<le> len (hashProvider ringAC ''b'')"
    by (simp add: ringAC_def headDigest_def len_def)
  have ne: "ring ringAC \<noteq> Map.empty" by (simp add: ringAC_def)
  have z: "sint (0 :: goint) \<le> 0" by simp
  obtain pos res where p: "GetNodePos ringAC ''b'' = Some (pos, True)"
    and r: "res = firstSeen (map (lookupStr (ring ringAC))
                 (drop pos (sortedKeys ringAC) @ take pos (sortedKeys ringAC)))"
    and g: "GetNodes ringAC ''b'' 0 = Some (res, False)"
    using GetNodes_nonpositive_size [OF produced_ringAC ne z l] by blast
  have "pos = 120" using p GetNodePos_ringAC_b by simp
  then have "res = [''c'', ''a'']"
    using r by (simp add: ringAC_def lookupStr_def firstSeen_replicate_pos firstSeen_replicate_only)
  then show ?thesis using produced_ringAC ne l p g \<open>pos = 120\<close> by simp
qed

end
